theory Spec2Isabelle
  imports Complex_Main "HOL-Library.AList"
begin

section \<open>Symbols, errors and Python dictionaries\<close>

text \<open>
  A \<open>Symbol\<close> names a construct: a construct type (a flag of the \<open>ConstructType\<close>
  enumeration, kept as the natural number of its bit mask) and an identifier. Symbols are
  compared and hashed by value.
\<close>

datatype symbol = Symbol (ctype: nat) (cid: string)

text \<open>
  The exceptions the two modules raise. \<open>RealizerError\<close> carries what its message is
  formatted from: the construct, the build context when one is set, and the set of
  expected symbols that have no link.
\<close>

datatype error =
    ValueError string
  | KeyError
  | AssertionError string
  | UnboundLocalError string
  | AttributeError string
  | LookupError
  | RealizerError symbol "symbol list option" "symbol set"

text \<open>
  A Python \<open>dict\<close> is an association list in insertion order with one entry per key:
  \<open>d[k] = v\<close> is \<open>AList.update k v\<close> (the entry is replaced where it stands, or appended),
  \<open>k in d\<close> is membership in \<open>dict_keys\<close>, \<open>d[k]\<close> is \<open>map_of d k\<close> with \<open>None\<close> for the
  \<open>KeyError\<close>.
\<close>

definition dict_keys :: "('k \<times> 'v) list \<Rightarrow> 'k list" where
  "dict_keys d = map fst d"

definition dict_values :: "('k \<times> 'v) list \<Rightarrow> 'v list" where
  "dict_values d = map snd d"

text \<open>The dictionary a comprehension \<open>{k: v for ...}\<close> or \<open>dict(pairs)\<close> builds from its pairs in order.\<close>

definition dict_of :: "('k \<times> 'v) list \<Rightarrow> ('k \<times> 'v) list" where
  "dict_of kvs = foldl (\<lambda>d kv. AList.update (fst kv) (snd kv) d) [] kvs"

section \<open>Numerical dictionaries\<close>

text \<open>
  Modelled from the spec: the module \<open>numdicts\<close> is not part of the sources. A \<open>NumDict\<close> is
  an associative container of floats with an optional default for unlisted keys; it supports
  elementwise arithmetic by a scalar or by another container, filtering of keys and
  sum-reduction. Floats are idealised as real numbers. Reading a key that is not listed
  gives the default, and raises \<open>KeyError\<close> when there is none.
\<close>

record numdict =
  nd_dict :: "(symbol \<times> real) list"
  nd_default :: "real option"

definition MutableNumDict :: "(symbol \<times> real) list option \<Rightarrow> numdict" where
  "MutableNumDict data =
     \<lparr>nd_dict = (case data of None \<Rightarrow> [] | Some d \<Rightarrow> dict_of d), nd_default = None\<rparr>"

definition nd_keys :: "numdict \<Rightarrow> symbol list" where
  "nd_keys d = dict_keys (nd_dict d)"


text \<open>
  Modelled from the spec: \<open>d.extend(keys, value=v)\<close> of \<open>numdicts\<close>; every key that is
  not yet listed is added with value \<open>v\<close>.
\<close>

definition nd_extend :: "symbol list \<Rightarrow> real \<Rightarrow> numdict \<Rightarrow> numdict" where
  "nd_extend ks v d =
     d\<lparr>nd_dict := foldl (\<lambda>m k. if k \<in> set (dict_keys m) then m else m @ [(k, v)]) (nd_dict d) ks\<rparr>"

definition val_sum :: "numdict \<Rightarrow> real" where
  "val_sum d = sum_list (dict_values (nd_dict d))"

text \<open>
  Modelled from the spec: \<open>d /= c\<close> of \<open>numdicts\<close> for a scalar \<open>c\<close>; every value, and the
  default when there is one, is divided. \<open>val_sum\<close> is the sum of the values and \<open>freeze\<close>
  gives the immutable copy, which has the same entries.
\<close>

definition nd_div_scalar :: "numdict \<Rightarrow> real \<Rightarrow> numdict" where
  "nd_div_scalar d c =
     \<lparr>nd_dict = map (\<lambda>(k, v). (k, v / c)) (nd_dict d),
      nd_default = map_option (\<lambda>v. v / c) (nd_default d)\<rparr>"

definition freeze :: "numdict \<Rightarrow> numdict" where
  "freeze d = d"




section \<open>Rules (\<open>components/rules.py\<close>)\<close>

subsection \<open>Rule forms\<close>

text \<open>
  A rule form is an object with a conclusion and a weight table. \<open>f_mro\<close> lists the names
  of the classes of the object (its type and the bases of its type), which is what
  \<open>isinstance\<close> reads.
\<close>

record form =
  f_mro :: "string list"
  f_conc :: symbol
  f_weights :: numdict

definition isinstance :: "form \<Rightarrow> string \<Rightarrow> bool" where
  "isinstance val cls = (cls \<in> set (f_mro val))"

text \<open>
  The block of \<open>Rule.__init__\<close> under the comment \<open>preconditions\<close> builds a \<open>ValueError\<close>
  in each of its two branches and does not raise it. \<open>precondition_errors\<close> lists the
  exception objects that are built; control continues after the block in every case.
\<close>

definition precondition_errors :: "symbol list \<Rightarrow> (symbol \<times> real) list option \<Rightarrow> error list" where
  "precondition_errors conds weights =
     (case weights of
        None \<Rightarrow> []
      | Some w \<Rightarrow>
          (if \<not> set (dict_keys w) \<subseteq> set conds
           then [ValueError ''Keys of arg weights do not match conds.''] else []) @
          (if \<not> list_all (\<lambda>v. 0 < v) (dict_values w)
           then [ValueError ''Weights must be strictly positive.''] else []))"

text \<open>
  \<open>Rule.__init__(conc, *conds, weights=None)\<close>. The two \<open>assert\<close> statements at the end are
  the branches that return \<open>AssertionError\<close>.
\<close>

definition normalized_weights :: "symbol list \<Rightarrow> (symbol \<times> real) list option \<Rightarrow> numdict" where
  "normalized_weights conds weights =
     (let ws = nd_extend conds 1 (MutableNumDict weights);
          w_sum = val_sum ws
      in if w_sum > 1 then nd_div_scalar ws w_sum else ws)"

definition Rule_init ::
  "symbol \<Rightarrow> symbol list \<Rightarrow> (symbol \<times> real) list option \<Rightarrow> error + form" where
  "Rule_init conc conds weights =
     (let built_not_raised = precondition_errors conds weights;
          ws = normalized_weights conds weights;
          self = \<lparr>f_mro = [''Rule'', ''object''], f_conc = conc, f_weights = freeze ws\<rparr>
      in if set (nd_keys (f_weights self)) \<noteq> set conds
         then Inl (AssertionError ''Each cond must have a weight.'')
         else if \<not> val_sum ws \<le> 1
         then Inl (AssertionError ''Inferred weights must sum to one or less.'')
         else Inr self)"


subsection \<open>The rule database\<close>

text \<open>
  The state of a \<open>Rules\<close> object. \<open>rule_type\<close> is the name of the class held in \<open>self.Rule\<close>.
  The set of promised deletions is a list without repetition, in some iteration order.
  Every method returns the exception it raises, if any, and the state it leaves.
\<close>

record rules =
  r_data :: "(symbol \<times> form) list"
  max_conds :: "int option"
  rule_type :: string
  add_promises :: "(symbol \<times> form) list"
  del_promises :: "symbol list"

definition Rules_init ::
  "(symbol \<times> form) list option \<Rightarrow> int option \<Rightarrow> string option \<Rightarrow> rules" where
  "Rules_init data maxc rtype =
     \<lparr>r_data = (case data of None \<Rightarrow> [] | Some d \<Rightarrow> dict_of d),
      max_conds = maxc,
      rule_type = (case rtype of None \<Rightarrow> ''Rule'' | Some c \<Rightarrow> c),
      add_promises = [],
      del_promises = []\<rparr>"

definition validate_rule_form :: "rules \<Rightarrow> form \<Rightarrow> error option" where
  "validate_rule_form self frm =
     (case max_conds self of
        None \<Rightarrow> None
      | Some m \<Rightarrow>
          if int (length (nd_dict (f_weights frm))) > m
          then Some (ValueError ''Received rule with too many conditions.'')
          else None)"

text \<open>
  \<open>Rules.__setitem__\<close>: in the \<open>else\<close> branch a \<open>TypeError\<close> is built and not raised, so the
  method returns with the data as it was.
\<close>

definition setitem :: "symbol \<Rightarrow> form \<Rightarrow> rules \<Rightarrow> error option \<times> rules" where
  "setitem key val self =
     (case validate_rule_form self val of
        Some e \<Rightarrow> (Some e, self)
      | None \<Rightarrow>
          if isinstance val (rule_type self)
          then (None, self\<lparr>r_data := AList.update key val (r_data self)\<rparr>)
          else (None, self))"








section \<open>Realizers (\<open>base/realizers.py\<close>)\<close>

unbundle bit_operations_syntax

subsection \<open>Data\<close>

text \<open>
  A pull function is the bound method \<open>view\<close> of a realizer object; \<open>View n\<close> is the one
  of the object with identity \<open>n\<close>. An output is a numerical dictionary (a \<open>Construct\<close>) or a
  mapping from member symbols to member outputs (a \<open>Structure\<close>).
\<close>

datatype pullfunc = View nat

datatype out = NumOut numdict | TrieOut "(symbol \<times> out) list"

type_synonym links = "(symbol \<times> pullfunc) list"

type_synonym cache = "(symbol \<times> out) list"

text \<open>
  The capability interfaces live in \<open>base/components.py\<close>, which is not part of the
  sources; an emitter and an updater are taken as parameters, each a record of the
  operations the realizers call. \<open>emit None\<close> is \<open>emit()\<close>, the default output;
  \<open>output_types\<close> is the attribute \<open>output\<close> of a \<open>Cycle\<close>, the mask of the member types it
  aggregates.
\<close>

record emitter =
  emit :: "cache option \<Rightarrow> out"
  expects :: "symbol \<Rightarrow> bool"
  expected :: "symbol set"
  check_links :: "links \<Rightarrow> bool"
  output_types :: nat

record updater =
  u_expects :: "symbol \<Rightarrow> bool"
  u_expected :: "symbol set"
  u_check_links :: "links \<Rightarrow> bool"

text \<open>The attributes every \<open>Realizer\<close> has; \<open>oid\<close> is the identity of the object.\<close>

record core =
  construct :: symbol
  oid :: nat
  emitter :: emitter
  updater :: "updater option"
  inputs :: links
  cur_output :: out
  input_cache :: cache
  update_cache :: cache

text \<open>
  A realizer is a \<open>Construct\<close> or a \<open>Structure\<close>; a \<open>Structure\<close> owns its members in
  \<open>_dict\<close>, a dictionary from construct type to a dictionary from symbol to realizer.
  The members are held by value: the model covers realizers that are members of one
  structure at most, which is how the build context assembles them.
\<close>

datatype realizer =
    Construct core
  | Structure core "(nat \<times> (symbol \<times> realizer) list) list"

type_synonym sdict = "(nat \<times> (symbol \<times> realizer) list) list"

primrec core_of :: "realizer \<Rightarrow> core" where
  "core_of (Construct c) = c"
| "core_of (Structure c d) = c"

primrec is_Structure :: "realizer \<Rightarrow> bool" where
  "is_Structure (Construct c) = False"
| "is_Structure (Structure c d) = True"

definition r_construct :: "realizer \<Rightarrow> symbol" where
  "r_construct r = construct (core_of r)"

definition view :: "realizer \<Rightarrow> pullfunc" where
  "view r = View (oid (core_of r))"

subsection \<open>Iterating over the members\<close>

text \<open>\<open>values(ctype)\<close> and \<open>items(ctype)\<close>: the buckets in order, those whose type meets the mask.\<close>

definition selected :: "nat option \<Rightarrow> nat \<Rightarrow> bool" where
  "selected types ct = (case types of None \<Rightarrow> True | Some m \<Rightarrow> ct AND m \<noteq> 0)"

definition s_items :: "nat option \<Rightarrow> sdict \<Rightarrow> (symbol \<times> realizer) list" where
  "s_items types d = concat (map (\<lambda>(ct, b). if selected types ct then b else []) d)"

definition s_values :: "nat option \<Rightarrow> sdict \<Rightarrow> realizer list" where
  "s_values types d = dict_values (s_items types d)"

text \<open>
  A loop \<open>for realizer in self.values(): ...\<close> whose body changes the member and a state
  \<open>s\<close>: \<open>for_values body d s\<close> visits the members bucket by bucket, puts each changed member
  back where it stands and threads the state.
\<close>

fun for_items :: "('a \<Rightarrow> 's \<Rightarrow> 'a \<times> 's) \<Rightarrow> ('k \<times> 'a) list \<Rightarrow> 's \<Rightarrow> ('k \<times> 'a) list \<times> 's" where
  "for_items f [] s = ([], s)"
| "for_items f ((k, x) # kxs) s =
     (case f x s of (x', s') \<Rightarrow>
        (case for_items f kxs s' of (kxs', s'') \<Rightarrow> ((k, x') # kxs', s'')))"

definition for_values :: "(realizer \<Rightarrow> 's \<Rightarrow> realizer \<times> 's) \<Rightarrow> sdict \<Rightarrow> 's \<Rightarrow> sdict \<times> 's" where
  "for_values body d s = for_items (for_items body) d s"

text \<open>A loop body that can raise: once an exception is pending, the rest of the loop is skipped.\<close>

definition raising :: "(realizer \<Rightarrow> realizer \<times> error option) \<Rightarrow> realizer \<Rightarrow> error option \<Rightarrow> realizer \<times> error option" where
  "raising body r pending = (case pending of None \<Rightarrow> body r | Some e \<Rightarrow> (r, Some e))"

definition map_values :: "(realizer \<Rightarrow> realizer) \<Rightarrow> sdict \<Rightarrow> sdict" where
  "map_values f d = map (map_prod id (map (map_prod id f))) d"

lemma for_items_cong [fundef_cong]:
  assumes "kxs = kys" and "s = t"
    and "\<And>k x s'. (k, x) \<in> set kys \<Longrightarrow> f x s' = g x s'"
  shows "for_items f kxs s = for_items g kys t"
proof -
  have "for_items f kys t = for_items g kys t"
    using assms(3)
  proof (induction kys arbitrary: t)
    case Nil
    show ?case by simp
  next
    case (Cons a kys)
    obtain k x where a: "a = (k, x)" by (cases a)
    have hd: "f x t = g x t" using Cons.prems [of k x t] a by simp
    have tl: "for_items f kys u = for_items g kys u" for u
      by (rule Cons.IH) (use Cons.prems in auto)
    show ?case by (simp add: a hd tl)
  qed
  then show ?thesis using assms(1,2) by simp
qed

lemma for_values_cong [fundef_cong]:
  assumes "d = d'" and "s = s'"
    and "\<And>ct b k r t. (ct, b) \<in> set d' \<Longrightarrow> (k, r) \<in> set b \<Longrightarrow> body r t = body' r t"
  shows "for_values body d s = for_values body' d' s'"
  unfolding for_values_def
proof (rule for_items_cong [OF assms(1,2)])
  fix ct b t
  assume "(ct, b) \<in> set d'"
  then show "for_items body b t = for_items body' b t"
    using assms(3) by (intro for_items_cong) auto
qed

lemma raising_cong [fundef_cong]:
  assumes "r = r'" and "pending = pending'"
    and "pending' = None \<Longrightarrow> body r' = body' r'"
  shows "raising body r pending = raising body' r' pending'"
  using assms by (simp add: raising_def split: option.splits)

lemma size_bucket:
  "(k, r) \<in> set b \<Longrightarrow> size r \<le> size_list (size_prod (\<lambda>x. 0) size) b"
  by (induction b) auto

lemma size_member:
  "(ct, b) \<in> set d \<Longrightarrow> (k, r) \<in> set b \<Longrightarrow> size r < size (Structure c d)"
proof (induction d)
  case Nil
  then show ?case by simp
next
  case (Cons a d)
  show ?case
  proof (cases "a = (ct, b)")
    case True
    then show ?thesis using size_bucket [OF Cons.prems(2)] by simp
  next
    case False
    then have "size r < size (Structure c d)" using Cons by simp
    then show ?thesis by simp
  qed
qed

subsection \<open>Links\<close>

text \<open>\<open>Realizer._accepts\<close> and \<open>Realizer._offer\<close>, on the attributes of the realizer.\<close>

definition accepts :: "core \<Rightarrow> symbol \<Rightarrow> bool" where
  "accepts self source =
     (let val = expects (emitter self) source
      in case updater self of None \<Rightarrow> val | Some u \<Rightarrow> val \<or> u_expects u source)"

definition Realizer_offer :: "symbol \<Rightarrow> pullfunc \<Rightarrow> core \<Rightarrow> core" where
  "Realizer_offer c callback self =
     (if accepts self c then self\<lparr>inputs := AList.update c callback (inputs self)\<rparr> else self)"

text \<open>
  \<open>_offer\<close> as a call dispatches on the object: a \<open>Construct\<close> runs \<open>Realizer._offer\<close>, a
  \<open>Structure\<close> runs it and then offers the link to every member.
\<close>

primrec offer :: "symbol \<Rightarrow> pullfunc \<Rightarrow> realizer \<Rightarrow> realizer" where
  "offer c callback (Construct self) = Construct (Realizer_offer c callback self)"
| "offer c callback (Structure self d) =
     Structure (Realizer_offer c callback self)
       (map (map_prod id (map (map_prod id (offer c callback)))) d)"

text \<open>
  \<open>self[key]\<close> for a symbol \<open>key\<close> (\<open>None\<close> is the \<open>KeyError\<close>), and the assignment
  \<open>self._dict.setdefault(key.ctype, {})[key] = obj\<close>.
\<close>

definition getitem :: "sdict \<Rightarrow> symbol \<Rightarrow> realizer option" where
  "getitem d key = (case map_of d (ctype key) of None \<Rightarrow> None | Some b \<Rightarrow> map_of b key)"

definition store :: "symbol \<Rightarrow> realizer \<Rightarrow> sdict \<Rightarrow> sdict" where
  "store key obj d =
     (let bucket = (case map_of d (ctype key) of None \<Rightarrow> [] | Some b \<Rightarrow> b)
      in AList.update (ctype key) (AList.update key obj bucket) d)"

text \<open>
  The body of the loop of \<open>_update_links\<close>. The target is itself one of the members the
  loop visits; it is carried as the state of the loop, unchanged where it stands in the
  dictionary (the test on the symbols skips it), and written back when the loop is over.
\<close>

definition link_pair :: "realizer \<Rightarrow> realizer \<Rightarrow> realizer \<times> realizer" where
  "link_pair realizer target =
     (if r_construct target \<noteq> r_construct realizer
      then (offer (r_construct target) (view target) realizer,
            offer (r_construct realizer) (view realizer) target)
      else (realizer, target))"

definition update_links :: "symbol \<Rightarrow> sdict \<Rightarrow> sdict \<times> error option" where
  "update_links c d =
     (case getitem d c of
        None \<Rightarrow> (d, Some KeyError)
      | Some target \<Rightarrow>
          (case for_values link_pair d target of
             (d', target') \<Rightarrow> (store c target' d', None)))"

fun add_all :: "realizer list \<Rightarrow> sdict \<Rightarrow> sdict \<times> error option" where
  "add_all [] d = (d, None)"
| "add_all (realizer # rest) d =
     (case update_links (r_construct realizer) (store (r_construct realizer) realizer d) of
        (d', Some e) \<Rightarrow> (d', Some e)
      | (d', None) \<Rightarrow> add_all rest d')"

text \<open>\<open>Structure._add\<close>, given the realizers to add; a \<open>Construct\<close> has no such method.\<close>

primrec s_add :: "realizer list \<Rightarrow> realizer \<Rightarrow> realizer \<times> error option" where
  "s_add realizers (Construct self) = (Construct self, Some (AttributeError ''_add''))"
| "s_add realizers (Structure self d) =
     (case add_all realizers d of (d', e) \<Rightarrow> (Structure self d', e))"

subsection \<open>Outputs\<close>

text \<open>\<open>del self.output\<close> and \<open>Structure.reset_output\<close>.\<close>

definition del_output :: "core \<Rightarrow> core" where
  "del_output self = self\<lparr>cur_output := emit (emitter self) None\<rparr>"

definition member_outputs :: "nat \<Rightarrow> sdict \<Rightarrow> cache" where
  "member_outputs types d =
     dict_of (map (\<lambda>(sym, c). (sym, cur_output (core_of c))) (s_items (Some types) d))"

definition reset_output :: "core \<Rightarrow> sdict \<Rightarrow> core" where
  "reset_output self d =
     (let ctype = output_types (emitter self);
          data = member_outputs ctype d
      in self\<lparr>cur_output := emit (emitter self) (Some data)\<rparr>)"

text \<open>
  \<open>Structure.clear_outputs\<close>. The first equation is the \<open>else\<close> branch of the loop body,
  which deletes the output of a member that is not a \<open>Structure\<close>.
\<close>

primrec clear_outputs :: "realizer \<Rightarrow> realizer" where
  "clear_outputs (Construct self) = Construct (del_output self)"
| "clear_outputs (Structure self d) =
     (let d' = map (map_prod id (map (map_prod id clear_outputs))) d
      in Structure (reset_output self d') d')"

subsection \<open>Assembly\<close>

definition link_error_msg :: "symbol list option \<Rightarrow> core \<Rightarrow> error" where
  "link_error_msg ctx self =
     (let s = expected (emitter self);
          s = s \<union> (case updater self of None \<Rightarrow> {} | Some u \<Rightarrow> u_expected u);
          s = s - set (dict_keys (inputs self))
      in RealizerError (construct self) ctx s)"

text \<open>\<open>Realizer._finalize_assembly\<close>; \<open>ctx\<close> is the value of \<open>BUILD_CTX\<close>, if it is set.\<close>

definition Realizer_finalize_assembly :: "symbol list option \<Rightarrow> core \<Rightarrow> error option" where
  "Realizer_finalize_assembly ctx self =
     (let b = check_links (emitter self) (inputs self);
          b = (b \<and> (case updater self of None \<Rightarrow> True | Some u \<Rightarrow> u_check_links u (inputs self)))
      in if \<not> b then Some (link_error_msg ctx self) else None)"

text \<open>
  \<open>_finalize_assembly\<close> as a call: the method of \<open>Realizer\<close> on a \<open>Construct\<close>, the
  override on a \<open>Structure\<close>. It returns the realizer as the call leaves it and the
  exception raised, if any.
\<close>

function finalize_assembly :: "symbol list option \<Rightarrow> realizer \<Rightarrow> realizer \<times> error option" where
  "finalize_assembly ctx (Construct self) = (Construct self, Realizer_finalize_assembly ctx self)"
| "finalize_assembly ctx (Structure self d) =
     (case for_values
             (raising (\<lambda>realizer. if is_Structure realizer
                                 then finalize_assembly ctx realizer else (realizer, None)))
             d None of
        (d1, Some e) \<Rightarrow> (Structure self d1, Some e)
      | (d1, None) \<Rightarrow>
          (case for_values
                  (raising (\<lambda>realizer. case realizer of
                                Construct c \<Rightarrow> (realizer, Realizer_finalize_assembly ctx c)
                              | Structure c m \<Rightarrow> (realizer, None)))
                  d1 None of
             (d2, Some e) \<Rightarrow> (Structure self d2, Some e)
           | (d2, None) \<Rightarrow>
               (let self' = reset_output self d2
                in (Structure self' d2, Realizer_finalize_assembly ctx self'))))"
  by pat_completeness auto
termination
  by (relation "measure (\<lambda>(ctx, r). size r)")
     (auto simp: size_member simp del: realizer.size)

subsection \<open>Updates\<close>

text \<open>
  What an update does to the components is outside the realizers: the calls are recorded
  in a log, in the order they are made, each with the symbol of the calling realizer and
  its arguments. \<open>PropagatorUpdate\<close> is \<open>emitter.update(inputs, output)\<close>, \<open>UpdaterC\<close> and
  \<open>UpdaterS\<close> are the calls of the updater of a \<open>Construct\<close> and of a \<open>Structure\<close>.
\<close>

datatype event =
    PropagatorUpdate symbol cache out
  | UpdaterC symbol cache out cache
  | UpdaterS symbol cache out cache

text \<open>\<open>_pull_update_data\<close>; \<open>ask\<close> gives what calling a pull function returns.\<close>

definition pull_update_data :: "(pullfunc \<Rightarrow> out) \<Rightarrow> core \<Rightarrow> core" where
  "pull_update_data ask self =
     (case updater self of
        None \<Rightarrow> self
      | Some u \<Rightarrow>
          (let data = dict_of (map (\<lambda>(src, f). (src, ask f))
                                   (filter (\<lambda>(src, f). u_expects u src) (inputs self)))
           in self\<lparr>update_cache := data\<rparr>))"

definition Construct_update :: "(pullfunc \<Rightarrow> out) \<Rightarrow> core \<Rightarrow> event list \<Rightarrow> core \<times> event list" where
  "Construct_update ask self tr =
     (let tr1 = tr @ [PropagatorUpdate (construct self) (input_cache self) (cur_output self)];
          self1 = pull_update_data ask self
      in case updater self1 of
           None \<Rightarrow> (self1, tr1)
         | Some u \<Rightarrow>
             (self1, tr1 @ [UpdaterC (construct self1) (input_cache self1)
                               (cur_output self1) (update_cache self1)]))"

text \<open>\<open>_update\<close> as a call: \<open>Construct._update\<close> or \<open>Structure._update\<close>.\<close>

function update :: "(pullfunc \<Rightarrow> out) \<Rightarrow> realizer \<Rightarrow> event list \<Rightarrow> realizer \<times> event list" where
  "update ask (Construct self) tr =
     (case Construct_update ask self tr of (self', tr') \<Rightarrow> (Construct self', tr'))"
| "update ask (Structure self d) tr =
     (let self1 = pull_update_data ask self in
      case for_values
             (\<lambda>realizer l. if is_Structure realizer then update ask realizer l else (realizer, l))
             d tr of
        (d1, tr1) \<Rightarrow>
          (case for_values
                  (\<lambda>realizer l. case realizer of
                       Construct c \<Rightarrow>
                         (case Construct_update ask c l of (c', l') \<Rightarrow> (Construct c', l'))
                     | Structure c m \<Rightarrow> (realizer, l))
                  d1 tr1 of
             (d2, tr2) \<Rightarrow>
               (case updater self1 of
                  None \<Rightarrow> (Structure self1 d2, tr2)
                | Some u \<Rightarrow>
                    (Structure self1 d2,
                     tr2 @ [UpdaterS (construct self1) (input_cache self1)
                               (cur_output self1) (update_cache self1)]))))"
  by pat_completeness auto
termination
  by (relation "measure (\<lambda>(ask, r, tr). size r)")
     (auto simp: size_member simp del: realizer.size)

subsection \<open>The build context\<close>

text \<open>
  The two context variables; \<open>None\<close> is a variable that is not set. A token keeps the
  value its variable had before \<open>set\<close>, which \<open>reset\<close> puts back. The two tokens that
  \<open>__enter__\<close> stores on the structure are kept beside it.
\<close>

record build =
  BUILD_CTX :: "symbol list option"
  BUILD_LIST :: "realizer list option"

record tokens =
  build_ctx_token :: "symbol list option"
  build_list_token :: "realizer list option"

text \<open>\<open>Realizer._update_add_queue\<close>, which every constructor ends with.\<close>

definition update_add_queue :: "realizer \<Rightarrow> build \<Rightarrow> build" where
  "update_add_queue self g =
     (case BUILD_LIST g of
        None \<Rightarrow> g
      | Some lst \<Rightarrow> g\<lparr>BUILD_LIST := Some (lst @ [self])\<rparr>)"

definition Structure_enter :: "realizer \<Rightarrow> build \<Rightarrow> tokens \<times> build" where
  "Structure_enter self g =
     (let parent = (case BUILD_CTX g of None \<Rightarrow> [] | Some p \<Rightarrow> p)
      in (\<lparr>build_ctx_token = BUILD_CTX g, build_list_token = BUILD_LIST g\<rparr>,
          \<lparr>BUILD_CTX = Some (parent @ [r_construct self]), BUILD_LIST = Some []\<rparr>))"

text \<open>
  The \<open>if\<close> block of \<open>__exit__\<close>: it returns the structure, the exception raised if any,
  and the local variable \<open>add_list\<close>, which is bound in this block only.
\<close>

definition exit_block ::
  "string option \<Rightarrow> realizer \<Rightarrow> build \<Rightarrow> realizer \<times> error option \<times> realizer list option" where
  "exit_block exc_type self g =
     (if exc_type = None
      then (case BUILD_CTX g of
              None \<Rightarrow> (self, Some LookupError, None)
            | Some ctx \<Rightarrow>
               (case BUILD_LIST g of
                  None \<Rightarrow> (self, Some LookupError, None)
                | Some add_list \<Rightarrow>
                   (case s_add add_list self of
                      (self1, Some e) \<Rightarrow> (self1, Some e, Some add_list)
                    | (self1, None) \<Rightarrow>
                        if length ctx \<le> 1
                        then (case finalize_assembly (BUILD_CTX g) self1 of
                                (self2, e) \<Rightarrow> (self2, e, Some add_list))
                        else (self1, None, Some add_list))))
      else (self, None, None))"

text \<open>
  The list that \<open>BUILD_LIST.reset\<close> puts back holds the structure itself when it was made
  inside an enclosing context; the entry is the object, so it shows the members added.
\<close>

definition restored_list :: "realizer \<Rightarrow> realizer list option \<Rightarrow> realizer list option" where
  "restored_list self old =
     map_option (map (\<lambda>r. if oid (core_of r) = oid (core_of self) then self else r)) old"

text \<open>
  \<open>Structure.__exit__\<close>: the block above, then \<open>print(add_list)\<close>, which reads the local
  variable, then the two resets.
\<close>

definition Structure_exit ::
  "string option \<Rightarrow> realizer \<Rightarrow> tokens \<Rightarrow> build \<Rightarrow> (realizer \<times> build) \<times> error option" where
  "Structure_exit exc_type self toks g =
     (case exit_block exc_type self g of
        (self', Some e, add_list) \<Rightarrow> ((self', g), Some e)
      | (self', None, None) \<Rightarrow>
          ((self', g), Some (UnboundLocalError ''add_list''))
      | (self', None, Some add_list) \<Rightarrow>
          ((self',
            \<lparr>BUILD_CTX = build_ctx_token toks,
             BUILD_LIST = restored_list self' (build_list_token toks)\<rparr>),
           None))"

section \<open>Example objects\<close>

text \<open>
  Modelled from the spec: a component of \<open>base/components.py\<close> (not part of the sources)
  that expects a fixed collection of symbols. Its \<open>check_links\<close> validates that every
  expected symbol has a link; its default output is an empty numerical dictionary and it
  aggregates member outputs into the mapping it is given.
\<close>

definition component :: "symbol list \<Rightarrow> nat \<Rightarrow> emitter" where
  "component xs types =
     \<lparr>emit = (\<lambda>data. case data of
                       None \<Rightarrow> NumOut \<lparr>nd_dict = [], nd_default = Some 0\<rparr>
                     | Some d \<Rightarrow> TrieOut d),
      expects = (\<lambda>s. s \<in> set xs),
      expected = set xs,
      check_links = (\<lambda>ins. set xs \<subseteq> set (dict_keys ins)),
      output_types = types\<rparr>"

definition updater_component :: "symbol list \<Rightarrow> updater" where
  "updater_component xs =
     \<lparr>u_expects = (\<lambda>s. s \<in> set xs),
      u_expected = set xs,
      u_check_links = (\<lambda>ins. set xs \<subseteq> set (dict_keys ins))\<rparr>"

text \<open>What \<open>Realizer.__init__\<close> sets, for the object \<open>n\<close> named \<open>name\<close>.\<close>

definition Realizer_init :: "nat \<Rightarrow> symbol \<Rightarrow> emitter \<Rightarrow> updater option \<Rightarrow> core" where
  "Realizer_init n name e u =
     \<lparr>construct = name, oid = n, emitter = e, updater = u, inputs = [],
      cur_output = emit e None, input_cache = [], update_cache = []\<rparr>"

text \<open>A database for rules of a subclass \<open>SubRule\<close> with one condition at most, and a plain rule.\<close>

definition sub_rule_db :: rules where
  "sub_rule_db = Rules_init None (Some 1) (Some ''SubRule'')"

definition plain_rule :: form where
  "plain_rule = \<lparr>f_mro = [''Rule'', ''object''], f_conc = Symbol 8 ''c'',
                  f_weights = \<lparr>nd_dict = [(Symbol 8 ''x'', 1)], nd_default = None\<rparr>\<rparr>"




text \<open>
  A structure \<open>agent\<close> without members, the same structure holding a node whose output is
  not the default, a node, and the state in which no context variable is set.
\<close>

definition active_node :: realizer where
  "active_node =
     Construct ((Realizer_init 2 (Symbol 1 ''a'') (component [] 0) None)
        \<lparr>cur_output := NumOut \<lparr>nd_dict = [(Symbol 1 ''a'', 1)], nd_default = Some 0\<rparr>\<rparr>)"

definition agent :: realizer where
  "agent = Structure (Realizer_init 1 (Symbol 32 ''agent'') (component [] 1) None) []"

definition busy_agent :: realizer where
  "busy_agent =
     Structure ((Realizer_init 1 (Symbol 32 ''agent'') (component [] 1) None)
                  \<lparr>cur_output := TrieOut [(Symbol 1 ''a'',
                       NumOut \<lparr>nd_dict = [(Symbol 1 ''a'', 1)], nd_default = Some 0\<rparr>)]\<rparr>)
       [(1, [(Symbol 1 ''a'', active_node)])]"

definition node :: realizer where
  "node = Construct (Realizer_init 2 (Symbol 1 ''a'') (component [] 0) None)"

definition unset :: build where
  "unset = \<lparr>BUILD_CTX = None, BUILD_LIST = None\<rparr>"

text \<open>
  A structure of two levels: \<open>agent\<close> holds the node \<open>a\<close> and the structure \<open>sub\<close>, which
  holds the node \<open>x\<close>; both structures have an updater. \<open>no_output\<close> is the default output
  of the example components.
\<close>

definition sub_node :: realizer where
  "sub_node = Construct (Realizer_init 3 (Symbol 1 ''x'') (component [] 0) None)"

definition subsystem :: realizer where
  "subsystem =
     Structure (Realizer_init 4 (Symbol 16 ''sub'') (component [] 1) (Some (updater_component [])))
       [(1, [(Symbol 1 ''x'', sub_node)])]"

definition two_level :: realizer where
  "two_level =
     Structure (Realizer_init 1 (Symbol 32 ''agent'') (component [] 17) (Some (updater_component [])))
       [(1, [(Symbol 1 ''a'', node)]), (16, [(Symbol 16 ''sub'', subsystem)])]"

definition no_output :: out where
  "no_output = NumOut \<lparr>nd_dict = [], nd_default = Some 0\<rparr>"

text \<open>
  A node \<open>b\<close> that expects the node \<open>a\<close> and has no link, and a structure that holds
  \<open>a\<close> and \<open>b\<close> with the link from \<open>a\<close> to \<open>b\<close> in place.
\<close>

definition unlinked_b :: core where
  "unlinked_b = Realizer_init 3 (Symbol 1 ''b'') (component [Symbol 1 ''a''] 0) None"

definition wired_agent :: realizer where
  "wired_agent =
     Structure (Realizer_init 1 (Symbol 32 ''agent'') (component [] 1) None)
       [(1, [(Symbol 1 ''a'', node),
             (Symbol 1 ''b'', Construct (unlinked_b\<lparr>inputs := [(Symbol 1 ''a'', View 2)]\<rparr>))])]"

text \<open>Two nodes that expect each other: \<open>a\<close> expects \<open>b\<close>, and \<open>b\<close> expects \<open>a\<close>.\<close>

definition node_a :: realizer where
  "node_a = Construct (Realizer_init 2 (Symbol 1 ''a'') (component [Symbol 1 ''b''] 0) None)"

definition node_b :: realizer where
  "node_b = Construct unlinked_b"

section \<open>Predicates the properties are stated with\<close>

text \<open>The keys of the argument \<open>weights\<close> of \<open>Rule.__init__\<close>.\<close>

definition weight_keys :: "(symbol \<times> real) list option \<Rightarrow> symbol set" where
  "weight_keys weights = (case weights of None \<Rightarrow> {} | Some w \<Rightarrow> set (dict_keys w))"


lemma in_values:
  "r \<in> set (s_values None d) \<longleftrightarrow> (\<exists>ct b k. (ct, b) \<in> set d \<and> (k, r) \<in> set b)"
  by (force simp: s_values_def s_items_def selected_def dict_values_def)

lemma values_size:
  "r \<in> set (s_values None d) \<Longrightarrow> size r < size (Structure c d)"
  using size_member by (auto simp: in_values)

text \<open>
  A realizer is cleared when the output of every \<open>Construct\<close> in it is the default of its
  emitter and the output of every \<open>Structure\<close> in it is what its emitter makes of the
  outputs of its members. \<open>constructs\<close> lists the \<open>Construct\<close> descendants.
\<close>

function cleared :: "realizer \<Rightarrow> bool" where
  "cleared (Construct self) = (cur_output self = emit (emitter self) None)"
| "cleared (Structure self d) =
     (list_all cleared (s_values None d)
      \<and> cur_output self =
          emit (emitter self) (Some (member_outputs (output_types (emitter self)) d)))"
  by pat_completeness auto
termination
  by (relation "measure size") (auto simp: values_size simp del: realizer.size)

function constructs :: "realizer \<Rightarrow> core list" where
  "constructs (Construct self) = [self]"
| "constructs (Structure self d) = concat (map constructs (s_values None d))"
  by pat_completeness auto
termination
  by (relation "measure size") (auto simp: values_size simp del: realizer.size)

text \<open>
  The check of \<open>Realizer._finalize_assembly\<close> in the words of the interface: the emitter
  accepts the link table and so does the updater, if there is one. \<open>missing_links\<close> is the
  set of expected symbols that have no link, and the links of a realizer are present when
  that set is empty. A \<open>check_links\<close> is sound for a realizer when it accepts its link table
  only if every symbol it expects has a link, which is what the interface asks of it.
\<close>

definition check_ok :: "core \<Rightarrow> bool" where
  "check_ok self =
     (check_links (emitter self) (inputs self)
      \<and> (case updater self of None \<Rightarrow> True | Some u \<Rightarrow> u_check_links u (inputs self)))"

definition missing_links :: "core \<Rightarrow> symbol set" where
  "missing_links self =
     (expected (emitter self) \<union> (case updater self of None \<Rightarrow> {} | Some u \<Rightarrow> u_expected u))
       - set (dict_keys (inputs self))"

definition sound_checks :: "core \<Rightarrow> bool" where
  "sound_checks self =
     ((check_links (emitter self) (inputs self)
         \<longrightarrow> expected (emitter self) \<subseteq> set (dict_keys (inputs self)))
      \<and> (case updater self of
           None \<Rightarrow> True
         | Some u \<Rightarrow> u_check_links u (inputs self)
                       \<longrightarrow> u_expected u \<subseteq> set (dict_keys (inputs self))))"

fun first_error :: "error option list \<Rightarrow> error option" where
  "first_error [] = None"
| "first_error (None # es) = first_error es"
| "first_error (Some e # es) = Some e"

definition links_present :: "core \<Rightarrow> bool" where
  "links_present self = (missing_links self = {})"

text \<open>
  The first exception of a sequence of calls, the attributes of a realizer and of all
  realizers below it, and the outcomes of the calls that \<open>Structure._finalize_assembly\<close>
  makes on the members: the structures first, then the constructs.
\<close>

function cores :: "realizer \<Rightarrow> core list" where
  "cores (Construct self) = [self]"
| "cores (Structure self d) = self # concat (map cores (s_values None d))"
  by pat_completeness auto
termination
  by (relation "measure size") (auto simp: values_size simp del: realizer.size)

definition member_errors :: "symbol list option \<Rightarrow> sdict \<Rightarrow> error option list" where
  "member_errors ctx d =
     map (\<lambda>r. snd (finalize_assembly ctx r)) (filter is_Structure (s_values None d)) @
     map (\<lambda>r. Realizer_finalize_assembly ctx (core_of r))
       (filter (\<lambda>r. \<not> is_Structure r) (s_values None d))"

text \<open>
  The call of the updater of a structure, as \<open>Structure._update\<close> logs it, and the log
  of the updates of the members: the structures first, then the constructs.
\<close>

definition updater_events :: "(pullfunc \<Rightarrow> out) \<Rightarrow> core \<Rightarrow> event list" where
  "updater_events ask self =
     (let self1 = pull_update_data ask self
      in case updater self1 of
           None \<Rightarrow> []
         | Some u \<Rightarrow> [UpdaterS (construct self1) (input_cache self1)
                        (cur_output self1) (update_cache self1)])"

definition member_events :: "(pullfunc \<Rightarrow> out) \<Rightarrow> sdict \<Rightarrow> event list" where
  "member_events ask d =
     concat (map (\<lambda>r. snd (update ask r [])) (filter is_Structure (s_values None d))) @
     concat (map (\<lambda>r. snd (update ask r [])) (filter (\<lambda>r. \<not> is_Structure r) (s_values None d)))"

text \<open>
  The attribute \<open>_dict\<close> of a realizer (empty for a \<open>Construct\<close>). The link keys of a
  realizer are the keys of its link table and, for a structure, the link keys of its
  members where they stand; \<open>keys_after X r\<close> is what they become when the symbols in \<open>X\<close>
  are offered to \<open>r\<close>. A registry is well formed when no construct type has two buckets, no
  bucket has two entries for a symbol, and every member is kept under its own symbol in
  the bucket of the type of that symbol, which is how \<open>_add\<close> fills it. \<open>registered d\<close> is
  the set of symbols with a member in \<open>d\<close>.
\<close>

primrec r_dict :: "realizer \<Rightarrow> sdict" where
  "r_dict (Construct self) = []"
| "r_dict (Structure self d) = d"

datatype keytree = KeyTree "symbol set" "(nat \<times> (symbol \<times> keytree) list) list"

primrec link_keys :: "realizer \<Rightarrow> keytree" where
  "link_keys (Construct self) = KeyTree (set (dict_keys (inputs self))) []"
| "link_keys (Structure self d) =
     KeyTree (set (dict_keys (inputs self)))
       (map (map_prod id (map (map_prod id link_keys))) d)"

primrec keys_after :: "symbol set \<Rightarrow> realizer \<Rightarrow> keytree" where
  "keys_after X (Construct self) =
     KeyTree (set (dict_keys (inputs self)) \<union> {s \<in> X. accepts self s}) []"
| "keys_after X (Structure self d) =
     KeyTree (set (dict_keys (inputs self)) \<union> {s \<in> X. accepts self s})
       (map (map_prod id (map (map_prod id (keys_after X)))) d)"

definition wf_dict :: "sdict \<Rightarrow> bool" where
  "wf_dict d =
     (distinct (dict_keys d)
      \<and> (\<forall>(ct, b) \<in> set d.
            distinct (dict_keys b)
            \<and> (\<forall>(k, r) \<in> set b. k = r_construct r \<and> ctype k = ct)))"

definition registered :: "sdict \<Rightarrow> symbol set" where
  "registered d =
     set (filter (\<lambda>k. getitem d k \<noteq> None) (concat (map (\<lambda>(ct, b). dict_keys b) d)))"

primrec top_keys :: "keytree \<Rightarrow> symbol set" where
  "top_keys (KeyTree ks ms) = ks"


text \<open>
  The two halves of the body of the loop of \<open>_update_links\<close>, and one step of \<open>_add\<close>: the
  registration of \<open>x\<close> followed by \<open>_update_links\<close>, with the loop carried out.
\<close>

definition offered_by :: "realizer \<Rightarrow> realizer \<Rightarrow> realizer" where
  "offered_by t r = (if r_construct t \<noteq> r_construct r then offer (r_construct r) (view r) t else t)"

definition offered_to :: "realizer \<Rightarrow> realizer \<Rightarrow> realizer" where
  "offered_to t r = (if r_construct t \<noteq> r_construct r then offer (r_construct t) (view t) r else r)"

definition add_one :: "realizer \<Rightarrow> sdict \<Rightarrow> sdict" where
  "add_one x d =
     store (r_construct x)
       (foldl offered_by x (s_values None (store (r_construct x) x d)))
       (map_values (offered_to x) (store (r_construct x) x d))"

section \<open>Loops over the members\<close>

lemma values_Nil [simp]: "s_values None [] = []"
  by (simp add: s_values_def s_items_def dict_values_def)

lemma values_Cons [simp]: "s_values None ((ct, b) # d) = map snd b @ s_values None d"
  by (simp add: s_values_def s_items_def dict_values_def selected_def)

lemma map_values_Nil [simp]: "map_values f [] = []"
  by (simp add: map_values_def)

lemma map_values_Cons [simp]:
  "map_values f ((ct, b) # d) = (ct, map (map_prod id f) b) # map_values f d"
  by (simp add: map_values_def)

text \<open>A loop whose body appends to a log what depends on the member only.\<close>

lemma for_items_log:
  assumes "\<And>k x t. (k, x) \<in> set kxs \<Longrightarrow> body x t = (g x, t @ h x)"
  shows "for_items body kxs t = (map (map_prod id g) kxs, t @ concat (map (\<lambda>kx. h (snd kx)) kxs))"
  using assms
proof (induction kxs arbitrary: t)
  case Nil
  show ?case by simp
next
  case (Cons a kxs)
  obtain k x where a: "a = (k, x)" by (cases a)
  have hd: "body x t = (g x, t @ h x)" using Cons.prems [of k x t] a by simp
  have tl: "for_items body kxs (t @ h x)
              = (map (map_prod id g) kxs, (t @ h x) @ concat (map (\<lambda>kx. h (snd kx)) kxs))"
    by (rule Cons.IH) (use Cons.prems in auto)
  show ?case by (simp add: a hd tl id_def)
qed

lemma for_values_log:
  assumes "\<And>r t. r \<in> set (s_values None d) \<Longrightarrow> body r t = (g r, t @ h r)"
  shows "for_values body d t = (map_values g d, t @ concat (map h (s_values None d)))"
  using assms
proof (induction d arbitrary: t)
  case Nil
  show ?case by (simp add: for_values_def)
next
  case (Cons a d)
  obtain ct b where a: "a = (ct, b)" by (cases a)
  have hd: "for_items body b t = (map (map_prod id g) b, t @ concat (map (\<lambda>kx. h (snd kx)) b))"
    by (rule for_items_log) (use Cons.prems a in force)
  have tl: "for_values body d u = (map_values g d, u @ concat (map h (s_values None d)))" for u
    by (rule Cons.IH) (use Cons.prems a in auto)
  show ?case
    using hd tl [unfolded for_values_def] by (simp add: a for_values_def comp_def)
qed

lemma concat_map_if:
  "concat (map (\<lambda>r. if P r then f r else []) xs) = concat (map f (filter P xs))"
  by (induction xs) auto

lemma map_values_comp: "map_values f (map_values g d) = map_values (\<lambda>r. f (g r)) d"
  by (induction d) (auto simp: map_values_def)

lemma values_map_values:
  "s_values None (map_values f d) = map f (s_values None d)"
  by (induction d) (auto simp: map_values_def s_values_def s_items_def selected_def dict_values_def)

lemma concat_map_if_not:
  "concat (map (\<lambda>r. if P r then [] else f r) xs) = concat (map f (filter (\<lambda>r. \<not> P r) xs))"
  by (induction xs) auto

lemma first_error_append:
  "first_error (xs @ ys) = (case first_error xs of None \<Rightarrow> first_error ys | Some e \<Rightarrow> Some e)"
  by (induction xs rule: first_error.induct) auto

lemma first_error_None: "first_error xs = None \<longleftrightarrow> (\<forall>x \<in> set xs. x = None)"
  by (induction xs rule: first_error.induct) auto

lemma raising_None [simp]: "raising F x None = F x"
  by (simp add: raising_def)

lemma raising_Some [simp]: "raising F x (Some e) = (x, Some e)"
  by (simp add: raising_def)

lemma for_items_pending:
  "for_items (raising F) kxs (Some e) = (kxs, Some e)"
  by (induction kxs) auto

lemma for_items_raising:
  "snd (for_items (raising F) kxs None) = first_error (map (\<lambda>kx. snd (F (snd kx))) kxs)"
proof (induction kxs)
  case Nil
  show ?case by simp
next
  case (Cons a kxs)
  obtain k x where a: "a = (k, x)" by (cases a)
  obtain x' e where f: "F x = (x', e)" by (cases "F x")
  show ?case
  proof (cases e)
    case None
    then show ?thesis using Cons.IH by (simp add: a f case_prod_beta)
  next
    case (Some err)
    then show ?thesis by (simp add: a f for_items_pending)
  qed
qed

lemma for_items_raising_fst:
  assumes "first_error (map (\<lambda>kx. snd (F (snd kx))) kxs) = None"
  shows "fst (for_items (raising F) kxs None) = map (map_prod id (\<lambda>x. fst (F x))) kxs"
  using assms
proof (induction kxs)
  case Nil
  show ?case by simp
next
  case (Cons a kxs)
  obtain k x where a: "a = (k, x)" by (cases a)
  obtain x' e where f: "F x = (x', e)" by (cases "F x")
  have e: "e = None" using Cons.prems by (cases e) (simp_all add: a f)
  have r: "first_error (map (\<lambda>kx. snd (F (snd kx))) kxs) = None"
    using Cons.prems by (simp add: a f e)
  show ?case using Cons.IH [OF r] by (simp add: a f e case_prod_beta)
qed

lemma for_values_pending:
  "for_values (raising F) d (Some e) = (d, Some e)"
  by (induction d) (auto simp: for_values_def for_items_pending)

lemma for_values_raising:
  "snd (for_values (raising F) d None) = first_error (map (\<lambda>r. snd (F r)) (s_values None d))"
proof (induction d)
  case Nil
  show ?case by (simp add: for_values_def)
next
  case (Cons a d)
  obtain ct b where a: "a = (ct, b)" by (cases a)
  obtain b' e where f: "for_items (raising F) b None = (b', e)"
    by (cases "for_items (raising F) b None")
  have e: "e = first_error (map (\<lambda>kx. snd (F (snd kx))) b)"
    using for_items_raising [of F b] f by simp
  show ?case
  proof (cases e)
    case None
    then show ?thesis
      using Cons.IH e [symmetric]
      by (simp add: a f for_values_def first_error_append comp_def case_prod_beta)
  next
    case (Some err)
    then show ?thesis
      using e [symmetric] for_values_pending [of F d err]
      by (simp add: a f for_values_def first_error_append comp_def case_prod_beta)
  qed
qed

lemma for_values_raising_fst:
  assumes "first_error (map (\<lambda>r. snd (F r)) (s_values None d)) = None"
  shows "fst (for_values (raising F) d None) = map_values (\<lambda>r. fst (F r)) d"
  using assms
proof (induction d)
  case Nil
  show ?case by (simp add: for_values_def)
next
  case (Cons a d)
  obtain ct b where a: "a = (ct, b)" by (cases a)
  have 1: "first_error (map (\<lambda>kx. snd (F (snd kx))) b) = None"
    and 2: "first_error (map (\<lambda>r. snd (F r)) (s_values None d)) = None"
    using Cons.prems by (auto simp: a first_error_append comp_def split: option.splits)
  obtain b' e where f: "for_items (raising F) b None = (b', e)"
    by (cases "for_items (raising F) b None")
  have e: "e = None" using for_items_raising [of F b] f 1 by simp
  have b': "b' = map (map_prod id (\<lambda>x. fst (F x))) b"
    using for_items_raising_fst [OF 1] f by simp
  show ?case
    using Cons.IH [OF 2] by (simp add: a f e b' for_values_def case_prod_beta)
qed


lemma first_error_Cons:
  "first_error (x # xs) = (case x of None \<Rightarrow> first_error xs | Some e \<Rightarrow> Some e)"
  by (cases x) simp_all

lemma first_error_single [simp]: "first_error [x] = x"
  by (cases x) simp_all

lemma first_error_map_if:
  "first_error (map (\<lambda>r. if P r then f r else None) xs) = first_error (map f (filter P xs))"
  by (induction xs) (auto simp: first_error_Cons split: option.splits)

lemma first_error_map_if_not:
  "first_error (map (\<lambda>r. if P r then None else f r) xs)
     = first_error (map f (filter (\<lambda>r. \<not> P r) xs))"
  by (induction xs) (auto simp: first_error_Cons split: option.splits)

lemma is_Structure_finalize [simp]:
  "is_Structure (fst (finalize_assembly ctx r)) = is_Structure r"
proof (cases r)
  case (Construct c)
  then show ?thesis by simp
next
  case (Structure c d)
  then show ?thesis by (simp add: Let_def split: prod.splits option.splits)
qed

lemma finalize_reset [simp]:
  "Realizer_finalize_assembly ctx (reset_output self d) = Realizer_finalize_assembly ctx self"
  by (simp add: Realizer_finalize_assembly_def reset_output_def link_error_msg_def Let_def
        split: option.splits)

text \<open>A loop whose body changes the member by what it reads in the state, and keeps that part of the state.\<close>

lemma for_items_inv:
  assumes b: "\<And>s x. body x s = (g s x, h s x)" and i: "\<And>s x. g (h s x) = g s"
  shows "for_items body kxs s = (map (map_prod id (g s)) kxs, foldl h s (map snd kxs))"
proof (induction kxs arbitrary: s)
  case Nil
  show ?case by simp
next
  case (Cons a kxs)
  obtain k x where a: "a = (k, x)" by (cases a)
  have tl: "for_items body kxs (h s x) = (map (map_prod id (g s)) kxs, foldl h (h s x) (map snd kxs))"
    using Cons.IH [of "h s x"] unfolding i .
  have hd: "body x s = (g s x, h s x)" by (rule b)
  show ?case
    by (simp add: a hd tl id_def)
qed

lemma foldl_inv:
  assumes "\<And>s x. g (h s x) = g s"
  shows "g (foldl h s xs) = g s"
  using assms by (induction xs arbitrary: s) auto

lemma for_values_inv:
  assumes b: "\<And>s x. body x s = (g s x, h s x)" and i: "\<And>s x. g (h s x) = g s"
  shows "for_values body d s = (map_values (g s) d, foldl h s (s_values None d))"
proof (induction d arbitrary: s)
  case Nil
  show ?case by (simp add: for_values_def)
next
  case (Cons a d)
  obtain ct bk where a: "a = (ct, bk)" by (cases a)
  have hd: "for_items body bk s = (map (map_prod id (g s)) bk, foldl h s (map snd bk))"
    by (rule for_items_inv) (rule b, rule i)
  have gi: "g (foldl h s (map snd bk)) = g s"
    by (rule foldl_inv) (rule i)
  have tl: "for_items (for_items body) d (foldl h s (map snd bk))
              = (map_values (g s) d, foldl h (foldl h s (map snd bk)) (s_values None d))"
    using Cons.IH [of "foldl h s (map snd bk)"] unfolding for_values_def gi .
  show ?case
    by (simp add: a for_values_def hd tl id_def)
qed

section \<open>Properties of rules\<close>

lemma dict_of_foldl_keys:
  "set (dict_keys (foldl (\<lambda>d kv. AList.update (fst kv) (snd kv) d) acc kvs))
     = set (dict_keys acc) \<union> set (dict_keys kvs)"
  by (induction kvs arbitrary: acc) (auto simp: dict_keys_def AList.dom_update)

lemma dict_of_keys: "set (dict_keys (dict_of kvs)) = set (dict_keys kvs)"
  by (simp add: dict_of_def dict_of_foldl_keys) (simp add: dict_keys_def)

lemma extend_foldl_keys:
  "set (dict_keys (foldl (\<lambda>m k. if k \<in> set (dict_keys m) then m else m @ [(k, v)]) m0 ks))
     = set (dict_keys m0) \<union> set ks"
  by (induction ks arbitrary: m0) (auto simp: dict_keys_def)





lemma keys_div: "nd_keys (nd_div_scalar d c) = nd_keys d"
  by (simp add: nd_keys_def nd_div_scalar_def dict_keys_def case_prod_unfold comp_def)

lemma keys_normalized:
  "set (nd_keys (normalized_weights conds weights)) =
     (case weights of None \<Rightarrow> {} | Some w \<Rightarrow> set (dict_keys w)) \<union> set conds"
  by (simp add: normalized_weights_def Let_def keys_div)
     (simp add: nd_keys_def nd_extend_def extend_foldl_keys MutableNumDict_def dict_of_keys
           split: option.splits, simp add: dict_keys_def)









lemma Rule_init_foreign_key:
  assumes "\<not> weight_keys weights \<subseteq> set conds"
  shows "Rule_init conc conds weights = Inl (AssertionError ''Each cond must have a weight.'')"
proof -
  have "set (nd_keys (normalized_weights conds weights)) \<noteq> set conds"
    using assms by (auto simp: keys_normalized weight_keys_def split: option.splits)
  then show ?thesis by (simp add: Rule_init_def Let_def freeze_def)
qed

text \<open>
  C2. The constructor does not raise on a weight that is not positive: the \<open>ValueError\<close>
  of the precondition block is built and not raised, and \<open>Rule(c, x, weights={x: -1.0})\<close>
  returns a rule with the weight \<open>-1\<close>.
\<close>

theorem rule_nonpositive_weight_accepted:
  "Rule_init (Symbol 8 ''c'') [Symbol 8 ''x''] (Some [(Symbol 8 ''x'', - 1)]) =
     Inr \<lparr>f_mro = [''Rule'', ''object''], f_conc = Symbol 8 ''c'',
          f_weights = \<lparr>nd_dict = [(Symbol 8 ''x'', - 1)], nd_default = None\<rparr>\<rparr>
   \<and> precondition_errors [Symbol 8 ''x''] (Some [(Symbol 8 ''x'', - 1)]) =
       [ValueError ''Weights must be strictly positive.'']"
  by (simp add: Rule_init_def normalized_weights_def nd_extend_def MutableNumDict_def dict_of_def
        dict_keys_def val_sum_def dict_values_def nd_div_scalar_def Let_def freeze_def nd_keys_def
        precondition_errors_def)


section \<open>Properties of the rule database\<close>

text \<open>
  C10. \<open>__setitem__\<close> with a value that passes the \<open>max_conds\<close> check and is not an
  instance of the rule type of the database returns without an exception and leaves the
  database as it was.
\<close>

theorem setitem_wrong_type_dropped:
  assumes "validate_rule_form self val = None"
    and "\<not> isinstance val (rule_type self)"
  shows "setitem key val self = (None, self)"
  using assms by (simp add: setitem_def)

theorem setitem_wrong_type_dropped_witness:
  "validate_rule_form sub_rule_db plain_rule = None
   \<and> \<not> isinstance plain_rule (rule_type sub_rule_db)
   \<and> setitem (Symbol 16 ''r'') plain_rule sub_rule_db = (None, sub_rule_db)
   \<and> r_data sub_rule_db = []"
proof -
  have v: "validate_rule_form sub_rule_db plain_rule = None"
    by (simp add: validate_rule_form_def sub_rule_db_def Rules_init_def plain_rule_def)
  have i: "\<not> isinstance plain_rule (rule_type sub_rule_db)"
    by (simp add: isinstance_def sub_rule_db_def Rules_init_def plain_rule_def)
  show ?thesis
    using v i setitem_wrong_type_dropped [OF v i, of "Symbol 16 ''r''"]
    by (simp add: sub_rule_db_def Rules_init_def)
qed

section \<open>Properties of links\<close>

lemma offer_inputs:
  "inputs (core_of (offer s f r)) = inputs (Realizer_offer s f (core_of r))"
  by (cases r) simp_all

lemma accepts_inputs [simp]: "accepts (c\<lparr>inputs := x\<rparr>) t = accepts c t"
  by (simp add: accepts_def)

lemma accepts_offer [simp]: "accepts (Realizer_offer s f c) t = accepts c t"
  by (simp add: Realizer_offer_def accepts_def)




section \<open>Properties of the promises\<close>

lemma validate_data [simp]: "validate_rule_form (s\<lparr>r_data := x\<rparr>) f = validate_rule_form s f"
  by (simp add: validate_rule_form_def)

lemma validate_dels [simp]: "validate_rule_form (s\<lparr>del_promises := x\<rparr>) f = validate_rule_form s f"
  by (simp add: validate_rule_form_def)

lemma validate_adds [simp]: "validate_rule_form (s\<lparr>add_promises := x\<rparr>) f = validate_rule_form s f"
  by (simp add: validate_rule_form_def)











section \<open>Properties of the outputs\<close>

lemma clear_outputs_Structure:
  "clear_outputs (Structure self d) =
     Structure (reset_output self (map_values clear_outputs d)) (map_values clear_outputs d)"
  by (simp add: map_values_def Let_def)

lemma cleared_clear_outputs: "cleared (clear_outputs r)"
proof (induction r)
  case (Construct c)
  show ?case by (simp add: del_output_def)
next
  case (Structure c d)
  have m: "cleared (clear_outputs r)" if "r \<in> set (s_values None d)" for r
  proof -
    from that obtain ct b k where "(ct, b) \<in> set d" "(k, r) \<in> set b"
      by (auto simp: in_values)
    then show ?thesis
      using Structure.IH [of "(ct, b)" b "(k, r)" r] by simp
  qed
  show ?case
    unfolding clear_outputs_Structure
    by (simp add: values_map_values list_all_iff m reset_output_def Let_def)
qed


lemma cleared_constructs:
  "cleared r \<Longrightarrow> list_all (\<lambda>c. cur_output c = emit (emitter c) None) (constructs r)"
  by (induction r rule: constructs.induct) (auto simp: list_all_iff)

text \<open>
  C6. After \<open>clear_outputs()\<close> on a structure, the output of every \<open>Construct\<close> below it
  is \<open>emitter.emit()\<close>, the default of its emitter, and the output of the structure, as of
  every structure below it, is what its emitter makes of the outputs of its members of the
  aggregated types, computed after the members have been cleared.
\<close>

theorem clear_outputs_defaults:
  "list_all (\<lambda>c. cur_output c = emit (emitter c) None)
       (constructs (clear_outputs (Structure self d)))
   \<and> cleared (clear_outputs (Structure self d))
   \<and> cur_output (core_of (clear_outputs (Structure self d))) =
       emit (emitter self)
         (Some (member_outputs (output_types (emitter self)) (map_values clear_outputs d)))"
proof -
  have c: "cleared (clear_outputs (Structure self d))"
    by (rule cleared_clear_outputs)
  have o: "cur_output (core_of (clear_outputs (Structure self d))) =
       emit (emitter self)
         (Some (member_outputs (output_types (emitter self)) (map_values clear_outputs d)))"
    unfolding clear_outputs_Structure by (simp add: reset_output_def Let_def)
  show ?thesis using c o cleared_constructs [OF c] by simp
qed

theorem clear_outputs_defaults_witness:
  "clear_outputs busy_agent =
     Structure ((Realizer_init 1 (Symbol 32 ''agent'') (component [] 1) None)
                  \<lparr>cur_output := TrieOut [(Symbol 1 ''a'',
                       NumOut \<lparr>nd_dict = [], nd_default = Some 0\<rparr>)]\<rparr>)
       [(1, [(Symbol 1 ''a'', Construct (Realizer_init 2 (Symbol 1 ''a'') (component [] 0) None))])]
   \<and> cleared (clear_outputs busy_agent)
   \<and> \<not> cleared busy_agent"
proof -
  have e: "clear_outputs busy_agent =
     Structure ((Realizer_init 1 (Symbol 32 ''agent'') (component [] 1) None)
                  \<lparr>cur_output := TrieOut [(Symbol 1 ''a'',
                       NumOut \<lparr>nd_dict = [], nd_default = Some 0\<rparr>)]\<rparr>)
       [(1, [(Symbol 1 ''a'', Construct (Realizer_init 2 (Symbol 1 ''a'') (component [] 0) None))])]"
    by (simp add: busy_agent_def active_node_def Realizer_init_def component_def del_output_def
          reset_output_def member_outputs_def s_items_def selected_def dict_of_def Let_def)
  have n: "\<not> cleared busy_agent"
    by (simp add: busy_agent_def active_node_def Realizer_init_def component_def
          s_values_def s_items_def selected_def dict_values_def)
  show ?thesis
    using e n clear_outputs_defaults [of "core_of busy_agent" "[(1, [(Symbol 1 ''a'', active_node)])]"]
    by (simp add: busy_agent_def)
qed

section \<open>Properties of the build context\<close>

lemma exit_abnormal:
  "exc_type \<noteq> None \<Longrightarrow>
   Structure_exit exc_type self toks g = ((self, g), Some (UnboundLocalError ''add_list''))"
  by (cases exc_type) (simp_all add: Structure_exit_def exit_block_def)

text \<open>
  C1. When the body of \<open>with agent:\<close> raises, \<open>__exit__\<close> adds nothing to the structure and
  finalizes nothing, but it does not unwind the context: \<open>print(add_list)\<close> reads a local
  variable that only the branch for a normal exit binds, so \<open>__exit__\<close> raises
  \<open>UnboundLocalError\<close> before the two resets, and both context variables keep the values
  of the scope instead of the values from before it (here: not set).
\<close>

theorem exit_after_exception_raises:
  "Structure_exit (Some ''ValueError'') agent (fst (Structure_enter agent unset))
       (update_add_queue node (snd (Structure_enter agent unset)))
     = ((agent, \<lparr>BUILD_CTX = Some [Symbol 32 ''agent''], BUILD_LIST = Some [node]\<rparr>),
        Some (UnboundLocalError ''add_list''))
   \<and> build_ctx_token (fst (Structure_enter agent unset)) = None
   \<and> build_list_token (fst (Structure_enter agent unset)) = None"
  by (simp add: exit_abnormal Structure_enter_def update_add_queue_def unset_def Let_def)
     (simp add: agent_def r_construct_def Realizer_init_def)

section \<open>Properties of updates\<close>

lemma Construct_update_log:
  "Construct_update ask c t = (fst (Construct_update ask c []), t @ snd (Construct_update ask c []))"
  by (simp add: Construct_update_def Let_def split: option.splits)

lemma is_Structure_update [simp]: "is_Structure (fst (update ask r t)) = is_Structure r"
proof (cases r)
  case (Construct c)
  then show ?thesis by (simp split: prod.splits)
next
  case (Structure c d)
  then show ?thesis by (simp add: Let_def split: prod.splits option.splits)
qed

lemma update_structure_members:
  assumes IH: "\<And>r t. r \<in> set (s_values None d) \<Longrightarrow>
             update ask r t = (fst (update ask r []), t @ snd (update ask r []))"
  shows "update ask (Structure self d) tr =
           (Structure (pull_update_data ask self) (map_values (\<lambda>r. fst (update ask r [])) d),
            tr @ member_events ask d @ updater_events ask self)"
proof -
  let ?b1 = "\<lambda>realizer l. if is_Structure realizer then update ask realizer l else (realizer, l)"
  let ?g1 = "\<lambda>r. if is_Structure r then fst (update ask r []) else r"
  let ?h1 = "\<lambda>r. if is_Structure r then snd (update ask r []) else []"
  let ?b2 = "\<lambda>realizer l. case realizer of
                 Construct c \<Rightarrow> (case Construct_update ask c l of (c', l') \<Rightarrow> (Construct c', l'))
               | Structure c m \<Rightarrow> (realizer, l)"
  let ?g2 = "\<lambda>r. if is_Structure r then r else fst (update ask r [])"
  let ?h2 = "\<lambda>r. if is_Structure r then [] else snd (update ask r [])"
  have b1: "?b1 r t = (?g1 r, t @ ?h1 r)" if "r \<in> set (s_values None d)" for r t
    using IH [OF that, of t] by simp
  have l1: "for_values ?b1 d tr = (map_values ?g1 d, tr @ concat (map ?h1 (s_values None d)))"
    by (rule for_values_log) (rule b1)
  have b2: "?b2 r t = (?g2 r, t @ ?h2 r)" for r t
  proof (cases r)
    case (Construct c)
    then show ?thesis
      using Construct_update_log [of ask c t] Construct_update_log [of ask c "[]"]
      by (simp split: prod.splits)
  next
    case (Structure c m)
    then show ?thesis by simp
  qed
  have l2: "for_values ?b2 d1 t
        = (map_values ?g2 d1, t @ concat (map ?h2 (s_values None d1)))" for t d1
    by (rule for_values_log) (rule b2)
  have gg: "?g2 (?g1 r) = fst (update ask r [])" for r
    by simp
  have g: "map_values ?g2 (map_values ?g1 d) = map_values (\<lambda>r. fst (update ask r [])) d"
    unfolding map_values_comp gg ..
  have hh: "?h2 (?g1 r) = (if is_Structure r then [] else snd (update ask r []))" for r
    by simp
  have h: "concat (map ?h2 (s_values None (map_values ?g1 d)))
         = concat (map (\<lambda>r. snd (update ask r [])) (filter (\<lambda>r. \<not> is_Structure r) (s_values None d)))"
    unfolding values_map_values map_map comp_def hh
    by (rule concat_map_if_not)
  have h1: "concat (map ?h1 (s_values None d))
         = concat (map (\<lambda>r. snd (update ask r [])) (filter is_Structure (s_values None d)))"
    by (rule concat_map_if)
  have u: "update ask (Structure self d) tr =
     (let self1 = pull_update_data ask self in
      case for_values ?b1 d tr of
        (d1, log1) \<Rightarrow>
          (case for_values ?b2 d1 log1 of
             (d2, log2) \<Rightarrow>
               (case updater self1 of
                  None \<Rightarrow> (Structure self1 d2, log2)
                | Some u \<Rightarrow>
                    (Structure self1 d2,
                     log2 @ [UpdaterS (construct self1) (input_cache self1)
                               (cur_output self1) (update_cache self1)]))))"
    by simp
  show ?thesis
    unfolding u l1 Let_def prod.case l2 g h h1 member_events_def updater_events_def
    by (simp split: option.splits)
qed


lemma update_log:
  "update ask r t = (fst (update ask r []), t @ snd (update ask r []))"
proof (induction r arbitrary: t)
  case (Construct c)
  show ?case
    using Construct_update_log [of ask c t] by (simp split: prod.splits)
next
  case (Structure c d)
  have m: "update ask r u = (fst (update ask r []), u @ snd (update ask r []))"
    if "r \<in> set (s_values None d)" for r u
  proof -
    from that obtain ct b k where "(ct, b) \<in> set d" "(k, r) \<in> set b"
      by (auto simp: in_values)
    then show ?thesis
      using Structure.IH [of "(ct, b)" b "(k, r)" r u] by simp
  qed
  have a: "update ask (Structure c d) u =
           (Structure (pull_update_data ask c) (map_values (\<lambda>r. fst (update ask r [])) d),
            u @ member_events ask d @ updater_events ask c)" for u
    by (rule update_structure_members) (rule m)
  show ?case
    unfolding a [of t] a [of "[]"] by simp
qed

lemma update_Structure_events:
  "snd (update ask (Structure self d) tr) = tr @ member_events ask d @ updater_events ask self"
proof -
  have "update ask (Structure self d) tr =
           (Structure (pull_update_data ask self) (map_values (\<lambda>r. fst (update ask r [])) d),
            tr @ member_events ask d @ updater_events ask self)"
    by (rule update_structure_members) (rule update_log)
  then show ?thesis by simp
qed

text \<open>
  C5. Let the members of a structure be one structure and one construct, in either
  order of the registry. The log of \<open>_update()\<close> on the structure is, after what was logged
  before: the whole log of the update of the member structure, which is the updates of
  its own members followed by the call of its updater; then the log of the update of the
  member construct; then the call of the updater of the structure itself, which is made
  exactly when there is an updater.
\<close>

theorem update_order:
  assumes "s_values None d = [Structure cs ds, Construct cc]
         \<or> s_values None d = [Construct cc, Structure cs ds]"
  shows "snd (update ask (Structure self d) tr) =
           tr @ snd (update ask (Structure cs ds) []) @ snd (Construct_update ask cc [])
              @ updater_events ask self
       \<and> snd (update ask (Structure cs ds) []) = member_events ask ds @ updater_events ask cs
       \<and> length (updater_events ask self) = (if updater self = None then 0 else 1)"
proof -
  have m: "member_events ask d = snd (update ask (Structure cs ds) []) @ snd (Construct_update ask cc [])"
    using assms by (auto simp: member_events_def split: prod.splits)
  have u: "updater (pull_update_data ask self) = updater self"
    by (simp add: pull_update_data_def Let_def split: option.splits)
  have l: "length (updater_events ask self) = (if updater self = None then 0 else 1)"
    by (simp add: updater_events_def Let_def u split: option.splits)
  show ?thesis
    using update_Structure_events [of ask self d tr] update_Structure_events [of ask cs ds "[]"] m l
    by simp
qed


theorem update_order_witness:
  "snd (update (\<lambda>f. no_output) two_level []) =
     [PropagatorUpdate (Symbol 1 ''x'') [] no_output,
      UpdaterS (Symbol 16 ''sub'') [] no_output [],
      PropagatorUpdate (Symbol 1 ''a'') [] no_output,
      UpdaterS (Symbol 32 ''agent'') [] no_output []]"
proof -
  let ?ask = "\<lambda>f::pullfunc. no_output"
  let ?cs = "Realizer_init 4 (Symbol 16 ''sub'') (component [] 1) (Some (updater_component []))"
  let ?ds = "[(1, [(Symbol 1 ''x'', sub_node)])]"
  let ?cc = "Realizer_init 2 (Symbol 1 ''a'') (component [] 0) None"
  let ?self = "Realizer_init 1 (Symbol 32 ''agent'') (component [] 17) (Some (updater_component []))"
  let ?d = "[(1, [(Symbol 1 ''a'', node)]), (16, [(Symbol 16 ''sub'', subsystem)])]"
  have v: "s_values None ?d = [Structure ?cs ?ds, Construct ?cc]
         \<or> s_values None ?d = [Construct ?cc, Structure ?cs ?ds]"
    by (simp add: node_def subsystem_def)
  note t = update_order [OF v, of ?ask ?self "[]"]
  have sub: "member_events ?ask ?ds = [PropagatorUpdate (Symbol 1 ''x'') [] no_output]"
    by (simp add: member_events_def sub_node_def Construct_update_def pull_update_data_def
          Realizer_init_def component_def no_output_def Let_def)
  have us: "updater_events ?ask ?cs = [UpdaterS (Symbol 16 ''sub'') [] no_output []]"
    by (simp add: updater_events_def pull_update_data_def Realizer_init_def component_def
          updater_component_def no_output_def dict_of_def Let_def)
  have up: "updater_events ?ask ?self = [UpdaterS (Symbol 32 ''agent'') [] no_output []]"
    by (simp add: updater_events_def pull_update_data_def Realizer_init_def component_def
          updater_component_def no_output_def dict_of_def Let_def)
  have c: "snd (Construct_update ?ask ?cc []) = [PropagatorUpdate (Symbol 1 ''a'') [] no_output]"
    by (simp add: Construct_update_def pull_update_data_def
          Realizer_init_def component_def no_output_def Let_def)
  show ?thesis
    using t unfolding sub us up c by (simp add: two_level_def)
qed

section \<open>Properties of assembly\<close>

lemma finalize_Structure_both:
  "(snd (finalize_assembly ctx (Structure self d))
          = first_error (member_errors ctx d @ [Realizer_finalize_assembly ctx self])) \<and>
       (snd (finalize_assembly ctx (Structure self d)) = None \<longrightarrow>
       fst (finalize_assembly ctx (Structure self d))
         = Structure (reset_output self (map_values (\<lambda>r. fst (finalize_assembly ctx r)) d))
             (map_values (\<lambda>r. fst (finalize_assembly ctx r)) d))"
proof -
  let ?F1 = "\<lambda>realizer. if is_Structure realizer
                          then finalize_assembly ctx realizer else (realizer, None)"
  let ?F2 = "\<lambda>realizer. case realizer of
                 Construct c \<Rightarrow> (realizer, Realizer_finalize_assembly ctx c)
               | Structure c m \<Rightarrow> (realizer, None)"
  let ?g1 = "\<lambda>r. fst (?F1 r)"
  let ?E1 = "first_error (map (\<lambda>r. snd (finalize_assembly ctx r))
                          (filter is_Structure (s_values None d)))"
  let ?E2 = "first_error (map (\<lambda>r. Realizer_finalize_assembly ctx (core_of r))
                          (filter (\<lambda>r. \<not> is_Structure r) (s_values None d)))"
  obtain d1 e1 where l1: "for_values (raising ?F1) d None = (d1, e1)"
    by (cases "for_values (raising ?F1) d None")
  have s1: "(\<lambda>r. snd (?F1 r)) = (\<lambda>r. if is_Structure r then snd (finalize_assembly ctx r) else None)"
    by (rule ext) simp
  have e1: "e1 = ?E1"
    using for_values_raising [of ?F1 d] l1 unfolding s1 first_error_map_if by simp
  have F2snd: "snd (?F2 r) = (if is_Structure r then None else Realizer_finalize_assembly ctx (core_of r))" for r
    by (cases r) simp_all
  have F2fst: "fst (?F2 r) = r" for r
    by (cases r) simp_all
  have u: "finalize_assembly ctx (Structure self d) =
     (case for_values (raising ?F1) d None of
        (d1, Some e) \<Rightarrow> (Structure self d1, Some e)
      | (d1, None) \<Rightarrow>
          (case for_values (raising ?F2) d1 None of
             (d2, Some e) \<Rightarrow> (Structure self d2, Some e)
           | (d2, None) \<Rightarrow>
               (let self' = reset_output self d2
                in (Structure self' d2, Realizer_finalize_assembly ctx self'))))"
    by (subst finalize_assembly.simps) (rule refl)
  show ?thesis
  proof (cases ?E1)
    case (Some e)
    then show ?thesis
      unfolding u l1 using e1 by (simp add: member_errors_def first_error_append)
  next
    case None
    have d1: "d1 = map_values ?g1 d"
      using for_values_raising_fst [of ?F1 d] l1 None unfolding s1 first_error_map_if by simp
    obtain d2 e2 where l2: "for_values (raising ?F2) d1 None = (d2, e2)"
      by (cases "for_values (raising ?F2) d1 None")
    have v: "map (\<lambda>r. snd (?F2 r)) (s_values None d1)
           = map (\<lambda>r. if is_Structure r then None else Realizer_finalize_assembly ctx (core_of r))
               (s_values None d)"
      unfolding d1 values_map_values F2snd by (auto simp: comp_def)
    have e2: "e2 = ?E2"
      using for_values_raising [of ?F2 d1] l2 unfolding v first_error_map_if_not by simp
    have d2: "d2 = map_values (\<lambda>r. fst (finalize_assembly ctx r)) d" if "?E2 = None"
    proof -
      have "first_error (map (\<lambda>r. snd (?F2 r)) (s_values None d1)) = None"
        unfolding v first_error_map_if_not using that .
      then have "d2 = map_values (\<lambda>r. fst (?F2 r)) d1"
        using for_values_raising_fst [of ?F2 d1] l2 by simp
      also have "\<dots> = map_values (\<lambda>r. fst (finalize_assembly ctx r)) d"
        unfolding F2fst d1 map_values_comp
        by (rule arg_cong [where f = "\<lambda>f. map_values f d"], rule ext) (case_tac r, simp_all)
      finally show ?thesis .
    qed
    show ?thesis
    proof (cases ?E2)
      case (Some e)
      then show ?thesis
        unfolding u l1 using e1 None l2 e2
        by (simp add: member_errors_def first_error_append)
    next
      case n2: None
      show ?thesis
        unfolding u l1 using e1 None l2 e2 n2 d2 [OF n2]
        by (simp add: member_errors_def first_error_append Let_def)
    qed
  qed
qed


lemma finalize_Structure_snd:
  "snd (finalize_assembly ctx (Structure self d))
     = first_error (member_errors ctx d @ [Realizer_finalize_assembly ctx self])"
  using finalize_Structure_both by blast

lemma finalize_Structure_fst:
  "snd (finalize_assembly ctx (Structure self d)) = None \<Longrightarrow>
   fst (finalize_assembly ctx (Structure self d))
     = Structure (reset_output self (map_values (\<lambda>r. fst (finalize_assembly ctx r)) d))
         (map_values (\<lambda>r. fst (finalize_assembly ctx r)) d)"
  using finalize_Structure_both by blast

lemma Realizer_finalize_iff:
  "Realizer_finalize_assembly ctx self =
     (if check_ok self then None else Some (RealizerError (construct self) ctx (missing_links self)))"
  by (simp add: Realizer_finalize_assembly_def check_ok_def link_error_msg_def missing_links_def
        Let_def)

lemma finalize_not_Structure:
  "\<not> is_Structure r \<Longrightarrow> snd (finalize_assembly ctx r) = Realizer_finalize_assembly ctx (core_of r)"
  by (cases r) simp_all

lemma member_errors_None:
  "(\<forall>x \<in> set (member_errors ctx d). x = None)
     \<longleftrightarrow> (\<forall>r \<in> set (s_values None d). snd (finalize_assembly ctx r) = None)"
proof -
  have c: "map (\<lambda>r. Realizer_finalize_assembly ctx (core_of r))
             (filter (\<lambda>r. \<not> is_Structure r) (s_values None d))
         = map (\<lambda>r. snd (finalize_assembly ctx r))
             (filter (\<lambda>r. \<not> is_Structure r) (s_values None d))"
    by (rule map_cong) (auto simp: finalize_not_Structure)
  have "set (member_errors ctx d) = (\<lambda>r. snd (finalize_assembly ctx r)) ` set (s_values None d)"
    unfolding member_errors_def c by auto
  then show ?thesis by auto
qed

lemma finalize_Structure_None:
  "snd (finalize_assembly ctx (Structure self d)) = None
     \<longleftrightarrow> (\<forall>r \<in> set (s_values None d). snd (finalize_assembly ctx r) = None)
          \<and> Realizer_finalize_assembly ctx self = None"
  unfolding finalize_Structure_snd first_error_None
  using member_errors_None [of ctx d] by auto

lemma finalize_ok_iff:
  "snd (finalize_assembly ctx r) = None \<longleftrightarrow> list_all check_ok (cores r)"
proof (induction r rule: cores.induct)
  case (1 self)
  show ?case by (simp add: Realizer_finalize_iff)
next
  case (2 self d)
  show ?case
    unfolding finalize_Structure_None
    using 2 by (auto simp: list_all_iff Realizer_finalize_iff)
qed

lemma finalize_keeps:
  assumes Q: "\<And>c v. Q (c\<lparr>cur_output := v\<rparr>) = Q c"
  shows "snd (finalize_assembly ctx r) = None \<Longrightarrow>
         list_all Q (cores (fst (finalize_assembly ctx r))) = list_all Q (cores r)"
proof (induction r rule: cores.induct)
  case (1 self)
  show ?case by simp
next
  case (2 self d)
  have m: "snd (finalize_assembly ctx r) = None" if "r \<in> set (s_values None d)" for r
    using "2.prems" that unfolding finalize_Structure_None by simp
  have q: "Q (reset_output self d') = Q self" for d'
    by (simp add: reset_output_def Let_def Q)
  show ?case
    unfolding finalize_Structure_fst [OF "2.prems"]
    using "2.IH" m by (simp add: values_map_values list_all_iff q)
qed

lemma sound_present:
  "sound_checks self \<Longrightarrow> check_ok self \<Longrightarrow> links_present self"
  by (auto simp: sound_checks_def check_ok_def links_present_def missing_links_def
        split: option.splits)

text \<open>
  C3. \<open>Realizer._finalize_assembly\<close>, which a \<open>Construct\<close> runs as it is and a \<open>Structure\<close>
  runs last as its own check, returns exactly when the emitter accepts the link table and
  the updater, if present, accepts it too; otherwise it raises \<open>RealizerError\<close> for the
  symbol of the realizer and the set of expected symbols without a link. On a structure,
  the exception raised is the first one among the finalizations of the member structures,
  then the checks of the member constructs, then the own check, and when there is none the
  output of the structure is recomputed from the members. Finalization returns exactly
  when the check holds for the realizer and for every realizer below it, and then, the
  checks being sound, the expected links of every one of them are present.
\<close>

theorem finalize_assembly_checks:
  "Realizer_finalize_assembly ctx c =
     (if check_ok c then None else Some (RealizerError (construct c) ctx (missing_links c)))
   \<and> finalize_assembly ctx (Construct c) = (Construct c, Realizer_finalize_assembly ctx c)
   \<and> snd (finalize_assembly ctx (Structure self d))
       = first_error (member_errors ctx d @ [Realizer_finalize_assembly ctx self])
   \<and> (snd (finalize_assembly ctx (Structure self d)) = None \<longrightarrow>
        cur_output (core_of (fst (finalize_assembly ctx (Structure self d))))
          = emit (emitter self)
              (Some (member_outputs (output_types (emitter self))
                       (map_values (\<lambda>r. fst (finalize_assembly ctx r)) d))))
   \<and> (snd (finalize_assembly ctx r) = None \<longleftrightarrow> list_all check_ok (cores r))
   \<and> (snd (finalize_assembly ctx r) = None \<and> list_all sound_checks (cores r)
        \<longrightarrow> list_all links_present (cores (fst (finalize_assembly ctx r))))"
proof -
  have out: "cur_output (core_of (fst (finalize_assembly ctx (Structure self d))))
          = emit (emitter self)
              (Some (member_outputs (output_types (emitter self))
                       (map_values (\<lambda>r. fst (finalize_assembly ctx r)) d)))"
    if "snd (finalize_assembly ctx (Structure self d)) = None"
    unfolding finalize_Structure_fst [OF that] by (simp add: reset_output_def Let_def)
  have pres: "list_all links_present (cores (fst (finalize_assembly ctx r)))"
    if ok: "snd (finalize_assembly ctx r) = None" and sound: "list_all sound_checks (cores r)"
  proof -
    have "list_all check_ok (cores r)" using ok finalize_ok_iff by simp
    then have "list_all links_present (cores r)"
      using sound sound_present by (auto simp: list_all_iff)
    moreover have "list_all links_present (cores (fst (finalize_assembly ctx r)))
                     = list_all links_present (cores r)"
      by (rule finalize_keeps [OF _ ok]) (simp add: links_present_def missing_links_def)
    ultimately show ?thesis by simp
  qed
  show ?thesis
    using Realizer_finalize_iff [of ctx c] finalize_Structure_snd [of ctx self d] out
      finalize_ok_iff [of ctx r] pres
    by simp
qed


theorem finalize_assembly_checks_witness:
  "finalize_assembly None (Construct unlinked_b)
     = (Construct unlinked_b, Some (RealizerError (Symbol 1 ''b'') None {Symbol 1 ''a''}))
   \<and> snd (finalize_assembly None wired_agent) = None
   \<and> list_all links_present (cores (fst (finalize_assembly None wired_agent)))"
proof -
  let ?self = "Realizer_init 1 (Symbol 32 ''agent'') (component [] 1) None"
  let ?d = "[(1, [(Symbol 1 ''a'', node),
             (Symbol 1 ''b'', Construct (unlinked_b\<lparr>inputs := [(Symbol 1 ''a'', View 2)]\<rparr>))])]"
  note t = finalize_assembly_checks [of None unlinked_b ?self ?d wired_agent]
  have nb: "\<not> check_ok unlinked_b"
    by (simp add: check_ok_def unlinked_b_def Realizer_init_def component_def dict_keys_def)
  have mb: "missing_links unlinked_b = {Symbol 1 ''a''}"
    by (simp add: missing_links_def unlinked_b_def Realizer_init_def component_def dict_keys_def)
  have cb: "construct unlinked_b = Symbol 1 ''b''"
    by (simp add: unlinked_b_def Realizer_init_def)
  have cs: "cores wired_agent =
      [?self, Realizer_init 2 (Symbol 1 ''a'') (component [] 0) None,
       unlinked_b\<lparr>inputs := [(Symbol 1 ''a'', View 2)]\<rparr>]"
    by (simp add: wired_agent_def node_def)
  have ok: "list_all check_ok (cores wired_agent)"
    unfolding cs
    by (simp add: check_ok_def unlinked_b_def Realizer_init_def component_def dict_keys_def)
  have sound: "list_all sound_checks (cores wired_agent)"
    unfolding cs
    by (simp add: sound_checks_def unlinked_b_def Realizer_init_def component_def dict_keys_def)
  show ?thesis
    using t nb mb cb ok sound by simp
qed

section \<open>Properties of adding members\<close>

lemma link_keys_after: "link_keys r = keys_after {} r"
  by (induction r) auto

lemma keys_offer: "set (dict_keys (inputs (Realizer_offer s f c)))
    = set (dict_keys (inputs c)) \<union> (if accepts c s then {s} else {})"
  by (auto simp: Realizer_offer_def dict_keys_def AList.dom_update)

lemma nested_map_cong:
  assumes "\<And>ct b k r. (ct, b) \<in> set d \<Longrightarrow> (k, r) \<in> set b \<Longrightarrow> f r = g r"
  shows "map (map_prod id (map (map_prod id f))) d = map (map_prod id (map (map_prod id g))) d"
proof (rule map_cong [OF refl])
  fix x assume x: "x \<in> set d"
  obtain ct b where xb: "x = (ct, b)" by (cases x)
  have "map (map_prod id f) b = map (map_prod id g) b"
  proof (rule map_cong [OF refl])
    fix y assume y: "y \<in> set b"
    obtain k r where yr: "y = (k, r)" by (cases y)
    show "map_prod id f y = map_prod id g y"
      using assms [of ct b k r] x y xb yr by simp
  qed
  then show "map_prod id (map (map_prod id f)) x = map_prod id (map (map_prod id g)) x"
    by (simp add: xb)
qed

lemma nested_map_comp:
  "map (map_prod id (map (map_prod id f))) (map (map_prod id (map (map_prod id g))) d)
     = map (map_prod id (map (map_prod id (\<lambda>r. f (g r))))) d"
  by (induction d) auto

lemma keys_after_offer: "keys_after X (offer s f r) = keys_after (insert s X) r"
proof (induction r)
  case (Construct c)
  show ?case by (auto simp: keys_offer)
next
  case (Structure c d)
  have m: "keys_after X (offer s f r) = keys_after (insert s X) r"
    if "(ct, b) \<in> set d" "(k, r) \<in> set b" for ct b k r
    using Structure.IH [of "(ct, b)" b "(k, r)" r] that by simp
  have n: "map (map_prod id (map (map_prod id (\<lambda>r. keys_after X (offer s f r))))) d
      = map (map_prod id (map (map_prod id (keys_after (insert s X))))) d"
    by (rule nested_map_cong) (rule m)
  have k: "set (dict_keys (inputs (Realizer_offer s f c))) \<union> {t \<in> X. accepts (Realizer_offer s f c) t}
         = set (dict_keys (inputs c)) \<union> {t \<in> insert s X. accepts c t}"
    by (auto simp: keys_offer)
  show ?case
    unfolding offer.simps keys_after.simps nested_map_comp n k ..
qed

lemma construct_offer [simp]: "r_construct (offer s f r) = r_construct r"
  by (cases r) (simp_all add: r_construct_def Realizer_offer_def)

lemma view_offer [simp]: "view (offer s f r) = view r"
  by (cases r) (simp_all add: view_def Realizer_offer_def)


lemma link_loop:
  "for_values link_pair d target =
     (map_values (\<lambda>r. if r_construct target \<noteq> r_construct r
                          then offer (r_construct target) (view target) r else r) d,
      foldl (\<lambda>t r. if r_construct t \<noteq> r_construct r
                       then offer (r_construct r) (view r) t else t) target (s_values None d))"
  by (rule for_values_inv) (auto simp: link_pair_def)

lemma getitem_store: "getitem (store c obj d) k = (if k = c then Some obj else getitem d k)"
  by (auto simp: getitem_def store_def Let_def AList.update_conv' split: option.splits)

lemma getitem_map_values: "getitem (map_values f d) k = map_option f (getitem d k)"
proof -
  have 1: "map_of (map (map_prod id g) xs) x = map_option g (map_of xs x)" for g :: "'a \<Rightarrow> 'b" and xs :: "('c \<times> 'a) list" and x
    by (induction xs) auto
  show ?thesis
    by (simp add: getitem_def map_values_def 1 split: option.splits)
qed

lemma getitem_SomeD:
  assumes "getitem d k = Some r"
  shows "\<exists>b. (ctype k, b) \<in> set d \<and> (k, r) \<in> set b"
  using assms by (auto simp: getitem_def split: option.splits dest: map_of_SomeD)

lemma wf_member:
  assumes "wf_dict d" and "(ct, b) \<in> set d" and "(k, r) \<in> set b"
  shows "k = r_construct r" and "ctype k = ct" and "getitem d k = Some r"
proof -
  have bk: "distinct (dict_keys b)" and e: "\<forall>(k, r) \<in> set b. k = r_construct r \<and> ctype k = ct"
    using assms(1,2) by (auto simp: wf_dict_def)
  show 1: "k = r_construct r" and 2: "ctype k = ct" using e assms(3) by auto
  have "map_of d ct = Some b"
    using assms(1,2) by (auto simp: wf_dict_def dict_keys_def intro: map_of_is_SomeI)
  moreover have "map_of b k = Some r"
    using bk assms(3) by (auto simp: dict_keys_def intro: map_of_is_SomeI)
  ultimately show "getitem d k = Some r" by (simp add: getitem_def 2)
qed

lemma wf_getitem:
  assumes "wf_dict d" and "getitem d k = Some r"
  shows "r_construct r = k" and "r \<in> set (s_values None d)"
proof -
  obtain b where b: "(ctype k, b) \<in> set d" "(k, r) \<in> set b"
    using getitem_SomeD [OF assms(2)] by blast
  show "r_construct r = k" using wf_member(1) [OF assms(1) b] by simp
  show "r \<in> set (s_values None d)" using b by (auto simp: in_values)
qed

lemma registered_eq: "registered d = {k. getitem d k \<noteq> None}"
proof -
  have "k \<in> set (concat (map (\<lambda>(ct, b). dict_keys b) d))" if "getitem d k \<noteq> None" for k
  proof -
    from that obtain r where "getitem d k = Some r" by auto
    then obtain b where "(ctype k, b) \<in> set d" "(k, r) \<in> set b"
      using getitem_SomeD by blast
    then show ?thesis by (force simp: dict_keys_def)
  qed
  then show ?thesis by (auto simp: registered_def)
qed

lemma wf_symbols:
  assumes "wf_dict d"
  shows "r_construct ` set (s_values None d) = registered d"
proof
  show "r_construct ` set (s_values None d) \<subseteq> registered d"
  proof
    fix k assume "k \<in> r_construct ` set (s_values None d)"
    then obtain r where r: "r \<in> set (s_values None d)" "k = r_construct r" by blast
    then obtain ct b k' where m: "(ct, b) \<in> set d" "(k', r) \<in> set b"
      by (auto simp: in_values)
    have "getitem d k' = Some r" "k' = r_construct r"
      using wf_member [OF assms m] by simp_all
    then show "k \<in> registered d" using r(2) by (simp add: registered_eq)
  qed
  show "registered d \<subseteq> r_construct ` set (s_values None d)"
  proof
    fix k assume "k \<in> registered d"
    then obtain r where g: "getitem d k = Some r" by (auto simp: registered_eq)
    have "r_construct r = k" and "r \<in> set (s_values None d)"
      using wf_getitem [OF assms g] by simp_all
    then show "k \<in> r_construct ` set (s_values None d)"
      by blast
  qed
qed

lemma wf_dict_Nil: "wf_dict []"
  by (simp add: wf_dict_def dict_keys_def)

lemma set_update_subset: "set (AList.update k v al) \<subseteq> insert (k, v) (set al)"
  by (induction al) auto

lemma dict_keys_map_prod: "dict_keys (map (map_prod id g) xs) = dict_keys xs"
  by (simp add: dict_keys_def comp_def)

lemma wf_bucket:
  assumes "wf_dict d" and "(ct, b) \<in> set d"
  shows "distinct (dict_keys b)" and "\<And>k r. (k, r) \<in> set b \<Longrightarrow> k = r_construct r \<and> ctype k = ct"
  using assms unfolding wf_dict_def by blast+

lemma wf_dictI:
  assumes "distinct (dict_keys d)"
    and "\<And>ct b. (ct, b) \<in> set d \<Longrightarrow> distinct (dict_keys b)"
    and "\<And>ct b k r. (ct, b) \<in> set d \<Longrightarrow> (k, r) \<in> set b \<Longrightarrow> k = r_construct r \<and> ctype k = ct"
  shows "wf_dict d"
  unfolding wf_dict_def using assms by blast

lemma wf_store:
  assumes "wf_dict d"
  shows "wf_dict (store (r_construct x) x d)"
proof -
  let ?c = "r_construct x"
  define bucket where "bucket = (case map_of d (ctype ?c) of None \<Rightarrow> [] | Some b \<Rightarrow> b)"
  define nb where "nb = AList.update ?c x bucket"
  have st: "store ?c x d = AList.update (ctype ?c) nb d"
    by (simp add: store_def Let_def nb_def bucket_def)
  have bd: "distinct (dict_keys bucket)"
    and be: "\<And>k r. (k, r) \<in> set bucket \<Longrightarrow> k = r_construct r \<and> ctype k = ctype ?c"
  proof -
    show "distinct (dict_keys bucket)"
    proof (cases "map_of d (ctype ?c)")
      case None
      then show ?thesis by (simp add: bucket_def dict_keys_def)
    next
      case (Some b)
      then have "(ctype ?c, b) \<in> set d" by (rule map_of_SomeD)
      then show ?thesis using wf_bucket(1) [OF assms] Some by (simp add: bucket_def)
    qed
    fix k r assume kr: "(k, r) \<in> set bucket"
    show "k = r_construct r \<and> ctype k = ctype ?c"
    proof (cases "map_of d (ctype ?c)")
      case None
      then show ?thesis using kr by (simp add: bucket_def)
    next
      case (Some b)
      then have m: "(ctype ?c, b) \<in> set d" by (rule map_of_SomeD)
      have kb: "(k, r) \<in> set b" using kr Some by (simp add: bucket_def)
      show ?thesis by (rule wf_bucket(2) [OF assms m kb])
    qed
  qed
  have nd: "distinct (dict_keys nb)"
    using bd by (simp add: nb_def dict_keys_def AList.distinct_update)
  have ne: "k = r_construct r \<and> ctype k = ctype ?c" if "(k, r) \<in> set nb" for k r
  proof -
    have "(k, r) = (?c, x) \<or> (k, r) \<in> set bucket"
      using that set_update_subset [of ?c x bucket] by (auto simp: nb_def)
    then show ?thesis using be by auto
  qed
  show ?thesis
    unfolding st
  proof (rule wf_dictI)
    show "distinct (dict_keys (AList.update (ctype ?c) nb d))"
      using assms by (simp add: wf_dict_def dict_keys_def AList.distinct_update)
  next
    fix ct b assume "(ct, b) \<in> set (AList.update (ctype ?c) nb d)"
    then have "(ct, b) = (ctype ?c, nb) \<or> (ct, b) \<in> set d"
      using set_update_subset [of "ctype ?c" nb d] by auto
    then show "distinct (dict_keys b)"
      using nd wf_bucket(1) [OF assms] by auto
  next
    fix ct b k r
    assume "(ct, b) \<in> set (AList.update (ctype ?c) nb d)" and kr: "(k, r) \<in> set b"
    then have "(ct, b) = (ctype ?c, nb) \<or> (ct, b) \<in> set d"
      using set_update_subset [of "ctype ?c" nb d] by auto
    then show "k = r_construct r \<and> ctype k = ct"
      using ne kr wf_bucket(2) [OF assms] by blast
  qed
qed

lemma wf_map_values:
  assumes "wf_dict d" and "\<And>r. r_construct (f r) = r_construct r"
  shows "wf_dict (map_values f d)"
proof -
  have 1: "distinct (dict_keys (map_values f d))"
    using assms(1) by (simp add: wf_dict_def map_values_def dict_keys_map_prod)
  have 2: "distinct (dict_keys b') \<and> (\<forall>(k, r) \<in> set b'. k = r_construct r \<and> ctype k = ct)"
    if "(ct, b') \<in> set (map_values f d)" for ct b'
  proof -
    from that obtain b where b: "(ct, b) \<in> set d" "b' = map (map_prod id f) b"
      by (auto simp: map_values_def)
    have "distinct (dict_keys b)" and e: "\<forall>(k, r) \<in> set b. k = r_construct r \<and> ctype k = ct"
      using assms(1) b(1) by (auto simp: wf_dict_def)
    then show ?thesis
      using assms(2) by (auto simp: b(2) dict_keys_map_prod)
  qed
  show ?thesis
    unfolding wf_dict_def using 1 2 by blast
qed

lemma registered_store: "registered (store c x d) = insert c (registered d)"
  by (auto simp: registered_eq getitem_store)

lemma registered_map_values: "registered (map_values f d) = registered d"
  by (auto simp: registered_eq getitem_map_values)

lemma construct_offered_by [simp]: "r_construct (offered_by t r) = r_construct t"
  by (simp add: offered_by_def)

lemma construct_offered_to [simp]: "r_construct (offered_to t r) = r_construct r"
  by (simp add: offered_to_def)

lemma construct_foldl [simp]: "r_construct (foldl offered_by t rs) = r_construct t"
  by (induction rs arbitrary: t) auto

lemma keys_after_foldl:
  "keys_after X (foldl offered_by t rs)
     = keys_after (X \<union> (r_construct ` set rs - {r_construct t})) t"
proof (induction rs arbitrary: t X)
  case Nil
  show ?case by simp
next
  case (Cons r rs)
  have "keys_after X (foldl offered_by (offered_by t r) rs)
      = keys_after (X \<union> (r_construct ` set rs - {r_construct t})) (offered_by t r)"
    using Cons.IH [of X "offered_by t r"] by simp
  also have "\<dots> = keys_after (X \<union> (r_construct ` set (r # rs) - {r_construct t})) t"
  proof (cases "r_construct t = r_construct r")
    case True
    then show ?thesis by (simp add: offered_by_def)
  next
    case False
    have "insert (r_construct r) (X \<union> (r_construct ` set rs - {r_construct t}))
        = X \<union> (r_construct ` set (r # rs) - {r_construct t})"
      using False by auto
    then show ?thesis using False by (simp add: offered_by_def keys_after_offer)
  qed
  finally show ?case by simp
qed


lemma link_loop':
  "for_values link_pair d target =
     (map_values (offered_to target) d, foldl offered_by target (s_values None d))"
proof -
  have 1: "(\<lambda>r. if r_construct target \<noteq> r_construct r
                          then offer (r_construct target) (view target) r else r) = offered_to target"
    by (rule ext) (simp add: offered_to_def)
  have 2: "(\<lambda>t r. if r_construct t \<noteq> r_construct r
                       then offer (r_construct r) (view r) t else t) = offered_by"
    by (rule ext, rule ext) (simp add: offered_by_def)
  show ?thesis using link_loop [of d target] unfolding 1 2 .
qed

lemma update_links_add:
  "update_links (r_construct x) (store (r_construct x) x d) = (add_one x d, None)"
  by (simp add: update_links_def getitem_store link_loop' add_one_def)

lemma wf_add_one:
  assumes "wf_dict d"
  shows "wf_dict (add_one x d)"
proof -
  let ?c = "r_construct x"
  let ?x' = "foldl offered_by x (s_values None (store ?c x d))"
  have 1: "wf_dict (map_values (offered_to x) (store ?c x d))"
    by (rule wf_map_values [OF wf_store [OF assms]]) simp
  have "wf_dict (store (r_construct ?x') ?x' (map_values (offered_to x) (store ?c x d)))"
    by (rule wf_store [OF 1])
  then show ?thesis by (simp add: add_one_def)
qed

lemma registered_add_one: "registered (add_one x d) = insert (r_construct x) (registered d)"
  by (simp add: add_one_def registered_store registered_map_values)

lemma keys_add_one:
  assumes "wf_dict d"
  shows "map_option (keys_after X) (getitem (add_one x d) k) =
     (if k = r_construct x
      then Some (keys_after (X \<union> (registered d - {r_construct x})) x)
      else map_option (keys_after (insert (r_construct x) X)) (getitem d k))"
proof (cases "k = r_construct x")
  case True
  have w: "wf_dict (store (r_construct x) x d)" by (rule wf_store [OF assms])
  have "r_construct ` set (s_values None (store (r_construct x) x d)) - {r_construct x}
        = registered d - {r_construct x}"
    unfolding wf_symbols [OF w] registered_store by auto
  then show ?thesis
    using True by (simp add: add_one_def getitem_store keys_after_foldl)
next
  case False
  show ?thesis
  proof (cases "getitem d k")
    case None
    then show ?thesis using False by (simp add: add_one_def getitem_store getitem_map_values)
  next
    case (Some r)
    have "r_construct r = k" using wf_getitem(1) [OF assms Some] .
    then have "offered_to x r = offer (r_construct x) (view x) r"
      using False by (auto simp: offered_to_def)
    then show ?thesis
      using False Some
      by (simp add: add_one_def getitem_store getitem_map_values keys_after_offer)
  qed
qed

lemma add_all_two:
  "add_all [a, b] d = (add_one b (add_one a d), None)"
  by (simp add: update_links_add)

lemma top_keys_after:
  "top_keys (keys_after Y r) = set (dict_keys (inputs (core_of r))) \<union> {s \<in> Y. accepts (core_of r) s}"
  by (cases r) simp_all

lemma top_link_keys: "top_keys (link_keys r) = set (dict_keys (inputs (core_of r)))"
  by (cases r) simp_all

lemma link_keys_add_two:
  assumes wf: "wf_dict d" and ne: "r_construct a \<noteq> r_construct b"
  shows "map_option link_keys (getitem (add_one b (add_one a d)) k) =
     (if k = r_construct b
        then Some (keys_after (insert (r_construct a) (registered d) - {r_construct b}) b)
      else if k = r_construct a
        then Some (keys_after (insert (r_construct b) (registered d) - {r_construct a}) a)
      else map_option (keys_after {r_construct a, r_construct b}) (getitem d k))"
proof -
  have w1: "wf_dict (add_one a d)" by (rule wf_add_one [OF wf])
  have s1: "{r_construct b} \<union> (registered d - {r_construct a})
             = insert (r_construct b) (registered d) - {r_construct a}"
    using ne by auto
  have 1: "map_option (keys_after {}) (getitem (add_one b (add_one a d)) k) =
     (if k = r_construct b
      then Some (keys_after ({} \<union> (registered (add_one a d) - {r_construct b})) b)
      else map_option (keys_after {r_construct b}) (getitem (add_one a d) k))"
    by (rule keys_add_one [OF w1])
  have 2: "map_option (keys_after {r_construct b}) (getitem (add_one a d) k) =
     (if k = r_construct a
      then Some (keys_after ({r_construct b} \<union> (registered d - {r_construct a})) a)
      else map_option (keys_after {r_construct a, r_construct b}) (getitem d k))"
    by (rule keys_add_one [OF wf])
  have l: "map_option link_keys (getitem (add_one b (add_one a d)) k)
         = map_option (keys_after {}) (getitem (add_one b (add_one a d)) k)"
    by (cases "getitem (add_one b (add_one a d)) k") (simp_all add: link_keys_after)
  show ?thesis
    unfolding l 1 2 registered_add_one s1 by simp
qed

lemma add_all_wf:
  "wf_dict d \<Longrightarrow> snd (add_all rs d) = None \<and> wf_dict (fst (add_all rs d))"
proof (induction rs arbitrary: d)
  case Nil
  then show ?case by simp
next
  case (Cons x rs)
  have "wf_dict (add_one x d)" by (rule wf_add_one [OF Cons.prems])
  then show ?case using Cons.IH [of "add_one x d"] by (simp add: update_links_add)
qed

text \<open>
  C4. Let \<open>a\<close> and \<open>b\<close> be realizers with different symbols, added to a structure whose
  registry is well formed. Adding \<open>a\<close> then \<open>b\<close> and adding \<open>b\<close> then \<open>a\<close> both return without an
  exception, leave the link table of the structure as it was, register the same symbols,
  and leave under every symbol members with the same link keys, their own and those of the
  realizers below them. When \<open>a\<close> accepts the symbol of \<open>b\<close> and \<open>b\<close> accepts the symbol of
  \<open>a\<close>, each of the two ends up with a link from the other.
\<close>

theorem add_order_independent:
  assumes "wf_dict d" and "r_construct a \<noteq> r_construct b"
  shows "snd (s_add [a, b] (Structure self d)) = None
   \<and> snd (s_add [b, a] (Structure self d)) = None
   \<and> inputs (core_of (fst (s_add [a, b] (Structure self d)))) = inputs self
   \<and> inputs (core_of (fst (s_add [b, a] (Structure self d)))) = inputs self
   \<and> registered (r_dict (fst (s_add [a, b] (Structure self d))))
       = registered (r_dict (fst (s_add [b, a] (Structure self d))))
   \<and> map_option link_keys (getitem (r_dict (fst (s_add [a, b] (Structure self d)))) k)
       = map_option link_keys (getitem (r_dict (fst (s_add [b, a] (Structure self d)))) k)
   \<and> (accepts (core_of a) (r_construct b) \<and> accepts (core_of b) (r_construct a) \<longrightarrow>
        (\<exists>a' b'. getitem (r_dict (fst (s_add [a, b] (Structure self d)))) (r_construct a) = Some a'
               \<and> getitem (r_dict (fst (s_add [a, b] (Structure self d)))) (r_construct b) = Some b'
               \<and> r_construct b \<in> set (dict_keys (inputs (core_of a')))
               \<and> r_construct a \<in> set (dict_keys (inputs (core_of b')))))"
proof -
  let ?ab = "add_one b (add_one a d)" and ?ba = "add_one a (add_one b d)"
  have ab: "s_add [a, b] (Structure self d) = (Structure self ?ab, None)"
    by (simp add: add_all_two del: add_all.simps)
  have ba: "s_add [b, a] (Structure self d) = (Structure self ?ba, None)"
    by (simp add: add_all_two del: add_all.simps)
  have reg: "registered ?ab = registered ?ba"
    by (auto simp: registered_add_one)
  have sw: "{r_construct b, r_construct a} = {r_construct a, r_construct b}" by auto
  have keys: "map_option link_keys (getitem ?ab k) = map_option link_keys (getitem ?ba k)"
    unfolding link_keys_add_two [OF assms] link_keys_add_two [OF assms(1) assms(2) [symmetric]] sw
    using assms(2) by auto
  have mutual: "\<exists>a' b'. getitem ?ab (r_construct a) = Some a' \<and> getitem ?ab (r_construct b) = Some b'
               \<and> r_construct b \<in> set (dict_keys (inputs (core_of a')))
               \<and> r_construct a \<in> set (dict_keys (inputs (core_of b')))"
    if acc: "accepts (core_of a) (r_construct b)" "accepts (core_of b) (r_construct a)"
  proof -
    have "map_option link_keys (getitem ?ab (r_construct a))
            = Some (keys_after (insert (r_construct b) (registered d) - {r_construct a}) a)"
      unfolding link_keys_add_two [OF assms] using assms(2) by simp
    then obtain a' where a': "getitem ?ab (r_construct a) = Some a'"
      "link_keys a' = keys_after (insert (r_construct b) (registered d) - {r_construct a}) a"
      by auto
    have "map_option link_keys (getitem ?ab (r_construct b))
            = Some (keys_after (insert (r_construct a) (registered d) - {r_construct b}) b)"
      unfolding link_keys_add_two [OF assms] by simp
    then obtain b' where b': "getitem ?ab (r_construct b) = Some b'"
      "link_keys b' = keys_after (insert (r_construct a) (registered d) - {r_construct b}) b"
      by auto
    have "r_construct b \<in> top_keys (link_keys a')"
      unfolding a'(2) top_keys_after using acc(1) assms(2) by simp
    moreover have "r_construct a \<in> top_keys (link_keys b')"
      unfolding b'(2) top_keys_after using acc(2) assms(2) by simp
    ultimately show ?thesis
      using a'(1) b'(1) by (simp add: top_link_keys)
  qed
  show ?thesis
    unfolding ab ba using reg keys mutual by simp
qed

theorem add_order_independent_witness:
  "s_add [node_a, node_b] agent =
     (Structure (Realizer_init 1 (Symbol 32 ''agent'') (component [] 1) None)
        [(1, [(Symbol 1 ''a'', Construct ((core_of node_a)\<lparr>inputs := [(Symbol 1 ''b'', View 3)]\<rparr>)),
              (Symbol 1 ''b'', Construct (unlinked_b\<lparr>inputs := [(Symbol 1 ''a'', View 2)]\<rparr>))])],
      None)
   \<and> s_add [node_b, node_a] agent =
     (Structure (Realizer_init 1 (Symbol 32 ''agent'') (component [] 1) None)
        [(1, [(Symbol 1 ''b'', Construct (unlinked_b\<lparr>inputs := [(Symbol 1 ''a'', View 2)]\<rparr>)),
              (Symbol 1 ''a'', Construct ((core_of node_a)\<lparr>inputs := [(Symbol 1 ''b'', View 3)]\<rparr>))])],
      None)
   \<and> map_option link_keys (getitem (r_dict (fst (s_add [node_a, node_b] agent))) (Symbol 1 ''a''))
       = map_option link_keys (getitem (r_dict (fst (s_add [node_b, node_a] agent))) (Symbol 1 ''a''))
   \<and> map_option link_keys (getitem (r_dict (fst (s_add [node_a, node_b] agent))) (Symbol 1 ''b''))
       = map_option link_keys (getitem (r_dict (fst (s_add [node_b, node_a] agent))) (Symbol 1 ''b''))"
proof -
  have wf: "wf_dict []" by (rule wf_dict_Nil)
  have ne: "r_construct node_a \<noteq> r_construct node_b"
    by (simp add: node_a_def node_b_def unlinked_b_def r_construct_def Realizer_init_def)
  note t = add_order_independent [OF wf ne, of "Realizer_init 1 (Symbol 32 ''agent'') (component [] 1) None"]
  have ab: "s_add [node_a, node_b] agent =
     (Structure (Realizer_init 1 (Symbol 32 ''agent'') (component [] 1) None)
        [(1, [(Symbol 1 ''a'', Construct ((core_of node_a)\<lparr>inputs := [(Symbol 1 ''b'', View 3)]\<rparr>)),
              (Symbol 1 ''b'', Construct (unlinked_b\<lparr>inputs := [(Symbol 1 ''a'', View 2)]\<rparr>))])],
      None)"
    by (simp add: agent_def node_a_def node_b_def unlinked_b_def update_links_def store_def
          getitem_def for_values_def link_pair_def r_construct_def view_def Realizer_init_def
          Realizer_offer_def accepts_def component_def Let_def)
  have ba: "s_add [node_b, node_a] agent =
     (Structure (Realizer_init 1 (Symbol 32 ''agent'') (component [] 1) None)
        [(1, [(Symbol 1 ''b'', Construct (unlinked_b\<lparr>inputs := [(Symbol 1 ''a'', View 2)]\<rparr>)),
              (Symbol 1 ''a'', Construct ((core_of node_a)\<lparr>inputs := [(Symbol 1 ''b'', View 3)]\<rparr>))])],
      None)"
    by (simp add: agent_def node_a_def node_b_def unlinked_b_def update_links_def store_def
          getitem_def for_values_def link_pair_def r_construct_def view_def Realizer_init_def
          Realizer_offer_def accepts_def component_def Let_def)
  show ?thesis
    using ab ba t [of "Symbol 1 ''a''"] t [of "Symbol 1 ''b''"]
    by (simp add: agent_def)
qed


end
